theory Spec2Isabelle
  imports Main "HOL-Library.AList"
begin

section \<open>Values and dictionaries\<close>

text \<open>
  The request body of \<open>/execute\<close> is decoded JSON, and so is every service response.
  Floating-point numbers play no role in \<open>Orchestrator.execute\<close> and are left out.
\<close>

datatype json =
    JNull
  | JBool bool
  | JNum int
  | JStr string
  | JArr "json list"
  | JObj "(string \<times> json) list"

text \<open>Python's truth value of a decoded JSON value, as tested by \<open>if fallback:\<close>.\<close>

fun truthy :: "json \<Rightarrow> bool" where
  "truthy JNull = False"
| "truthy (JBool b) = b"
| "truthy (JNum n) = (n \<noteq> 0)"
| "truthy (JStr s) = (s \<noteq> [])"
| "truthy (JArr xs) = (xs \<noteq> [])"
| "truthy (JObj kvs) = (kvs \<noteq> [])"

text \<open>
  A Python \<open>dict\<close> is an association list in insertion order: \<open>d[k] = v\<close> is
  \<open>AList.update k v d\<close> (in place when the key exists, appended otherwise), \<open>del d[k]\<close> is
  \<open>AList.delete k d\<close>, \<open>d[k]\<close> is \<open>map_of d k\<close> with \<open>None\<close> for the \<open>KeyError\<close>.
\<close>

type_synonym ('k, 'v) dict = "('k \<times> 'v) list"

definition dict_get :: "('k, 'v) dict \<Rightarrow> 'k \<Rightarrow> 'v \<Rightarrow> 'v" where
  \<comment> \<open>\<open>d.get(k, default)\<close>\<close>
  "dict_get d k dflt = (case map_of d k of None \<Rightarrow> dflt | Some v \<Rightarrow> v)"

definition keys :: "('k, 'v) dict \<Rightarrow> 'k list" where
  "keys d = map fst d"

section \<open>The graph description\<close>

text \<open>
  \<open>graph["nodes"]\<close> is a list of nodes with a name, an endpoint, an \<open>inputs\<close> dictionary
  from local key to source key, and possibly a fallback of their own;
  \<open>graph["edges"]\<close> is a list of edges with \<open>from\<close>, \<open>to\<close> and possibly a fallback.
  The edge's fallback is kept as a JSON value, for the code calls \<open>.get\<close> on what it reads
  from the edge data, and whether that raises depends on the value's dynamic type.
\<close>

record node =
  name :: string
  endpoint :: string
  inputs :: "(string, string) dict"
  node_fallback :: "json option"

record edge =
  edge_from :: string
  edge_to :: string
  edge_fallback :: "json option"

record graph =
  nodes :: "node list"
  edges :: "edge list"

definition edge_get_fallback :: "edge \<Rightarrow> json" where
  \<comment> \<open>\<open>edge.get("fallback")\<close>: Python's \<open>None\<close> when the key is missing\<close>
  "edge_get_fallback e = (case edge_fallback e of None \<Rightarrow> JNull | Some f \<Rightarrow> f)"

section \<open>The networkx digraph\<close>

text \<open>
  \<open>nx.DiGraph\<close> keeps a dictionary from node to attribute dictionary (\<open>G._node\<close>) and
  adjacency dictionaries from node to neighbour to edge data (\<open>G._succ\<close>, \<open>G._pred\<close>).
  \<open>node_attr\<close> is \<open>G._node\<close>; the attribute dictionary of a node declared in
  \<open>graph["nodes"]\<close> is that node, and \<open>None\<close> stands for the empty attribute dictionary
  that \<open>add_edge\<close> gives to a node it creates. \<open>adj\<close> lists the edges with their data
  in the order in which each was first added; the successors of \<open>u\<close> in \<open>G._succ[u]\<close>
  and the predecessors of \<open>v\<close> in \<open>G._pred[v]\<close> come in that order.
\<close>

record digraph =
  node_attr :: "(string, node option) dict"
  adj :: "(string \<times> string, (string, json) dict) dict"

definition DiGraph :: digraph where
  "DiGraph = \<lparr>node_attr = [], adj = []\<rparr>"

definition add_node :: "string \<Rightarrow> node \<Rightarrow> digraph \<Rightarrow> digraph" where
  \<comment> \<open>\<open>G.add_node(n, **attr)\<close>: a new node gets \<open>attr\<close>, an existing one is updated with
      the keys of \<open>attr\<close> (a node without a fallback of its own has no such key)\<close>
  "add_node n attr G =
     (case map_of (node_attr G) n of
        Some (Some old) \<Rightarrow>
          G\<lparr>node_attr := AList.update n
               (Some (attr\<lparr>node_fallback :=
                  (case node_fallback attr of None \<Rightarrow> node_fallback old | Some f \<Rightarrow> Some f)\<rparr>))
               (node_attr G)\<rparr>
      | _ \<Rightarrow> G\<lparr>node_attr := AList.update n (Some attr) (node_attr G)\<rparr>)"

definition touch_node :: "string \<Rightarrow> digraph \<Rightarrow> digraph" where
  \<comment> \<open>\<open>if u not in self._succ: ... self._node[u] = {}\<close>\<close>
  "touch_node n G =
     (if n \<in> set (keys (node_attr G)) then G else G\<lparr>node_attr := node_attr G @ [(n, None)]\<rparr>)"

definition add_edge :: "string \<Rightarrow> string \<Rightarrow> json \<Rightarrow> digraph \<Rightarrow> digraph" where
  \<comment> \<open>\<open>G.add_edge(u, v, fallback=fb)\<close>\<close>
  "add_edge u v fb G =
     (let G1 = touch_node v (touch_node u G);
          datadict = AList.update ''fallback'' fb (dict_get (adj G1) (u, v) [])
      in G1\<lparr>adj := AList.update (u, v) datadict (adj G1)\<rparr>)"

definition build :: "graph \<Rightarrow> digraph" where
  \<comment> \<open>lines 94 to 100\<close>
  "build g =
     fold (\<lambda>e. add_edge (edge_from e) (edge_to e) (edge_get_fallback e)) (edges g)
       (fold (\<lambda>n. add_node (name n) n) (nodes g) DiGraph)"

definition in_degree :: "digraph \<Rightarrow> string \<Rightarrow> int" where
  "in_degree G v = int (length (filter (\<lambda>e. snd (fst e) = v) (adj G)))"

definition neighbors :: "digraph \<Rightarrow> string \<Rightarrow> string list" where
  "neighbors G n = map (\<lambda>e. snd (fst e)) (filter (\<lambda>e. fst (fst e) = n) (adj G))"

definition in_edges :: "digraph \<Rightarrow> string \<Rightarrow> (string \<times> string) list" where
  "in_edges G v = map fst (filter (\<lambda>e. snd (fst e) = v) (adj G))"

section \<open>Exceptions\<close>

datatype exn =
    KeyError string
  | AttributeError
  | HTTPException int string
  | NetworkXUnfeasible
  | RuntimeError

section \<open>Topological sort\<close>

text \<open>
  \<open>nx.topological_sort\<close> yields the nodes of \<open>nx.topological_generations\<close>, which is
  Kahn's algorithm by generations (networkx 2.6 and later):
  \<^verbatim>\<open>
    indegree_map = {v: d for v, d in G.in_degree() if d > 0}
    zero_indegree = [v for v, d in G.in_degree() if d == 0]
    while zero_indegree:
        this_generation = zero_indegree
        zero_indegree = []
        for node in this_generation:
            if node not in G:
                raise RuntimeError("Graph changed during iteration")
            for child in G.neighbors(node):
                try:
                    indegree_map[child] -= 1
                except KeyError as err:
                    raise RuntimeError("Graph changed during iteration") from err
                if indegree_map[child] == 0:
                    zero_indegree.append(child)
                    del indegree_map[child]
        yield this_generation
    if indegree_map:
        raise nx.NetworkXUnfeasible(...)
  \<close>
  It is a generator, and the loop of \<open>execute\<close> draws one node at a time from it. The
  loop body never changes \<open>G\<close>, so the nodes yielded and the exception that may end the
  iteration are fixed by \<open>G\<close> alone: \<open>topological_sort\<close> returns both, and \<open>execute\<close>
  raises the exception only after it has processed every node yielded before it.
\<close>

type_synonym kahn = "(string, int) dict \<times> string list"

definition relax :: "kahn \<Rightarrow> string \<Rightarrow> kahn option" where
  \<comment> \<open>the body of the inner loop; \<open>None\<close> is the \<open>RuntimeError\<close>\<close>
  "relax st child =
     (case map_of (fst st) child of
        None \<Rightarrow> None
      | Some d \<Rightarrow>
          if d - 1 = 0 then Some (AList.delete child (fst st), snd st @ [child])
          else Some (AList.update child (d - 1) (fst st), snd st))"

fun relax_children :: "kahn \<Rightarrow> string list \<Rightarrow> kahn option" where
  "relax_children st [] = Some st"
| "relax_children st (c # cs) =
     (case relax st c of None \<Rightarrow> None | Some st' \<Rightarrow> relax_children st' cs)"

fun relax_nodes :: "digraph \<Rightarrow> kahn \<Rightarrow> string list \<Rightarrow> kahn option" where
  "relax_nodes G st [] = Some st"
| "relax_nodes G st (n # ns) =
     (if n \<notin> set (keys (node_attr G)) then None
      else case relax_children st (neighbors G n) of
             None \<Rightarrow> None
           | Some st' \<Rightarrow> relax_nodes G st' ns)"

function generations :: "digraph \<Rightarrow> (string, int) dict \<Rightarrow> string list \<Rightarrow> string list list \<times> exn option" where
  "generations G indegree_map zero_indegree =
     (if zero_indegree = [] then
        ([], if indegree_map \<noteq> [] then Some NetworkXUnfeasible else None)
      else
        (case relax_nodes G (indegree_map, []) zero_indegree of
           None \<Rightarrow> ([], Some RuntimeError)
         | Some (indegree_map', zero_indegree') \<Rightarrow>
             (let (gs, e) = generations G indegree_map' zero_indegree'
              in (zero_indegree # gs, e))))"
  by pat_completeness auto
termination
proof (relation "measure (\<lambda>(G, m, z). length m + (if z = [] then 0 else 1))", goal_cases)
  case 1
  show ?case by simp
next
  case (2 G m z x2 m' z')
  have del_lt: "length (AList.delete c al) < length al"
    if "c \<in> fst ` set al" for c and al :: "(string, int) dict"
    using that by (induction al) (auto simp: AList.delete_eq le_imp_less_Suc)
  have upd_eq: "length (AList.update c v al) = length al"
    if "map_of al c = Some d" for c v d and al :: "(string, int) dict"
    using that by (induction al) (auto split: if_splits)
  have relax_le: "length (fst st') + length (snd st') \<le> length (fst st) + length (snd st)"
    if r: "relax st c = Some st'" for st c st'
  proof -
    from r obtain d where d: "map_of (fst st) c = Some d"
      by (auto simp: relax_def split: option.splits)
    show ?thesis
    proof (cases "d - 1 = 0")
      case True
      from d have "c \<in> fst ` set (fst st)" by (metis map_of_eq_None_iff option.distinct(1))
      from del_lt [OF this] r d True show ?thesis by (auto simp: relax_def)
    next
      case False
      from upd_eq [OF d] r d False show ?thesis by (auto simp: relax_def)
    qed
  qed
  have children_le: "length (fst st') + length (snd st') \<le> length (fst st) + length (snd st)"
    if "relax_children st cs = Some st'" for st cs st'
    using that
  proof (induction cs arbitrary: st)
    case Nil
    then show ?case by simp
  next
    case (Cons c cs)
    then obtain st1 where s1: "relax st c = Some st1" and s2: "relax_children st1 cs = Some st'"
      by (auto split: option.splits)
    from relax_le [OF s1] Cons.IH [OF s2] show ?case by linarith
  qed
  have nodes_le: "length (fst st') + length (snd st') \<le> length (fst st) + length (snd st)"
    if "relax_nodes G st ns = Some st'" for st ns st'
    using that
  proof (induction ns arbitrary: st)
    case Nil
    then show ?case by simp
  next
    case (Cons n ns)
    then obtain st1 where s1: "relax_children st (neighbors G n) = Some st1"
      and s2: "relax_nodes G st1 ns = Some st'"
      by (auto split: option.splits if_splits)
    from children_le [OF s1] Cons.IH [OF s2] show ?case by linarith
  qed
  from 2 have "relax_nodes G (m, []) z = Some (m', z')" by simp
  from nodes_le [OF this] have "length m' + length z' \<le> length m" by simp
  with 2 show ?case by (cases z') auto
qed

declare generations.simps [simp del]

definition topological_generations :: "digraph \<Rightarrow> string list list \<times> exn option" where
  "topological_generations G =
     generations G
       (filter (\<lambda>(v, d). d > 0) (map (\<lambda>v. (v, in_degree G v)) (keys (node_attr G))))
       (filter (\<lambda>v. in_degree G v = 0) (keys (node_attr G)))"

definition topological_sort :: "digraph \<Rightarrow> string list \<times> exn option" where
  "topological_sort G = (case topological_generations G of (gs, e) \<Rightarrow> (concat gs, e))"

section \<open>The run\<close>

text \<open>
  The transport stands for \<open>self.client.post(url, json=body, timeout=5.0)\<close> followed by
  \<open>raise_for_status()\<close> and \<open>resp.json()\<close>: \<open>Inr\<close> the decoded body, \<open>Inl\<close> the text of
  the exception (\<open>str(e)\<close>). Its first argument is the number of requests served so far,
  so that a service may answer differently from one request to the next.
  Every request is appended to \<open>calls\<close>, with the names that had an entry in \<open>results\<close>
  or \<open>errors\<close> at that moment (\<open>c_done\<close>). The payload is part of the state, so that what the
  run does to it is visible.
\<close>

type_synonym transport = "nat \<Rightarrow> json \<Rightarrow> (string, json) dict \<Rightarrow> string + json"

record call =
  c_node :: string
  c_fallback :: bool
  c_url :: json
  c_body :: "(string, json) dict"
  c_resp :: "string + json"
  c_done :: "string list"

record state =
  payload :: "(string, json) dict"
  results :: "(string, json) dict"
  errors :: "(string, string) dict"
  calls :: "call list"
  clock :: nat

definition do_post ::
  "transport \<Rightarrow> string \<Rightarrow> bool \<Rightarrow> json \<Rightarrow> (string, json) dict \<Rightarrow> state \<Rightarrow> (string + json) \<times> state" where
  "do_post post n fb url body s =
     (let r = post (clock s) url body
      in (r, s\<lparr>calls := calls s @
                 [\<lparr>c_node = n, c_fallback = fb, c_url = url, c_body = body, c_resp = r,
                   c_done = keys (results s) @ keys (errors s)\<rparr>],
               clock := Suc (clock s)\<rparr>))"

definition resolve_inputs ::
  "(string, json) dict \<Rightarrow> (string, json) dict \<Rightarrow> (string, string) dict \<Rightarrow> (string, json) dict" where
  \<comment> \<open>line 107: \<open>{k: results.get(v, payload.get(v)) for k, v in node["inputs"].items()}\<close>\<close>
  "resolve_inputs res pl ins =
     map (\<lambda>(k, v). (k, dict_get res v (dict_get pl v JNull))) ins"

definition find_fallback :: "digraph \<Rightarrow> string \<Rightarrow> exn + json" where
  \<comment> \<open>lines 116 to 119: \<open>G.edges[in_edges[0]]\<close> is the data dictionary of the first inbound
      edge, which the code then indexes with the node's name before calling \<open>.get\<close>\<close>
  "find_fallback G n =
     (case in_edges G n of
        [] \<Rightarrow> Inr JNull
      | e # _ \<Rightarrow>
          (case map_of (adj G) e of
             None \<Rightarrow> Inl (KeyError (fst e @ ''->'' @ snd e))
           | Some data \<Rightarrow>
               (case map_of data n of
                  None \<Rightarrow> Inl (KeyError n)
                | Some (JObj kvs) \<Rightarrow> Inr (dict_get kvs ''fallback'' JNull)
                | Some _ \<Rightarrow> Inl AttributeError)))"

definition run_node :: "transport \<Rightarrow> digraph \<Rightarrow> string \<Rightarrow> state \<Rightarrow> exn option \<times> state" where
  \<comment> \<open>the loop body, lines 105 to 130\<close>
  "run_node post G n s =
     (case map_of (node_attr G) n of
        None \<Rightarrow> (Some (KeyError n), s)
      | Some None \<Rightarrow> (Some (KeyError ''endpoint''), s)
      | Some (Some nd) \<Rightarrow>
          (let service_url = endpoint nd;
               ins = resolve_inputs (results s) (payload s) (inputs nd);
               (r, s1) = do_post post n False (JStr service_url) ins s
           in case r of
                Inr out \<Rightarrow> (None, s1\<lparr>results := AList.update n out (results s1)\<rparr>)
              | Inl e \<Rightarrow>
                  (let s2 = s1\<lparr>errors := AList.update n e (errors s1)\<rparr>
                   in case find_fallback G n of
                        Inl x \<Rightarrow> (Some x, s2)
                      | Inr fallback \<Rightarrow>
                          if truthy fallback then
                            (let (r2, s3) = do_post post n True fallback ins s2
                             in case r2 of
                                  Inr out \<Rightarrow> (None, s3\<lparr>results := AList.update n out (results s3)\<rparr>)
                                | Inl e2 \<Rightarrow>
                                    (case map_of (errors s3) n of
                                       None \<Rightarrow> (Some (KeyError n), s3)
                                     | Some old \<Rightarrow>
                                         (None, s3\<lparr>errors := AList.update n
                                            (old @ ''; fallback failed: '' @ e2) (errors s3)\<rparr>)))
                          else
                            (Some (HTTPException 502 (n @ '' failed and no fallback available'')), s2))))"

fun run_nodes :: "transport \<Rightarrow> digraph \<Rightarrow> string list \<Rightarrow> state \<Rightarrow> exn option \<times> state" where
  "run_nodes post G [] s = (None, s)"
| "run_nodes post G (n # ns) s =
     (case run_node post G n s of
        (None, s') \<Rightarrow> run_nodes post G ns s'
      | (Some x, s') \<Rightarrow> (Some x, s'))"

definition init_state :: "nat \<Rightarrow> (string, json) dict \<Rightarrow> state" where
  \<comment> \<open>line 102: \<open>results, errors = {}, {}\<close>\<close>
  "init_state t0 pl = \<lparr>payload = pl, results = [], errors = [], calls = [], clock = t0\<rparr>"

definition execute :: "transport \<Rightarrow> nat \<Rightarrow> graph \<Rightarrow> (string, json) dict \<Rightarrow> exn option \<times> state" where
  \<comment> \<open>\<open>(None, s)\<close>: the run returns \<open>ExecuteResponse(results s, errors s)\<close>;
      \<open>(Some x, s)\<close>: it raises \<open>x\<close>, in state \<open>s\<close>\<close>
  "execute post t0 g pl =
     (let G = build g;
          (order, ending) = topological_sort G
      in case run_nodes post G order (init_state t0 pl) of
           (Some x, s) \<Rightarrow> (Some x, s)
         | (None, s) \<Rightarrow> (ending, s))"

section \<open>Auxiliary notions for the proofs\<close>

text \<open>The two requests a node can issue, as they are appended to \<open>calls\<close> from state \<open>s\<close>.\<close>

definition primary_call :: "transport \<Rightarrow> node \<Rightarrow> string \<Rightarrow> state \<Rightarrow> call" where
  "primary_call post nd n s =
     (let body = resolve_inputs (results s) (payload s) (inputs nd)
      in \<lparr>c_node = n, c_fallback = False, c_url = JStr (endpoint nd), c_body = body,
          c_resp = post (clock s) (JStr (endpoint nd)) body,
          c_done = keys (results s) @ keys (errors s)\<rparr>)"

definition fallback_call :: "transport \<Rightarrow> node \<Rightarrow> string \<Rightarrow> json \<Rightarrow> string \<Rightarrow> state \<Rightarrow> call" where
  "fallback_call post nd n url e s =
     (let body = resolve_inputs (results s) (payload s) (inputs nd)
      in \<lparr>c_node = n, c_fallback = True, c_url = url, c_body = body,
          c_resp = post (Suc (clock s)) url body,
          c_done = keys (results s) @ keys (AList.update n e (errors s))\<rparr>)"

text \<open>What a state holds about one node: its result, its error and its requests.\<close>

definition view :: "string \<Rightarrow> state \<Rightarrow> json option \<times> string option \<times> call list" where
  "view n s = (map_of (results s) n, map_of (errors s) n, filter (\<lambda>c. c_node c = n) (calls s))"

definition unclock :: "state \<Rightarrow> state" where
  "unclock s = s\<lparr>clock := 0\<rparr>"

text \<open>
  For Kahn's algorithm: \<open>cnt R v\<close> counts the edges of \<open>R\<close> into \<open>v\<close>, and \<open>kinv E m Z R\<close>
  says that, after the edges \<open>R\<close> have been relaxed, \<open>indegree_map\<close> holds for each of its
  nodes the number of inbound edges not yet relaxed, and every node of \<open>Z\<close> (those that
  have entered \<open>zero_indegree\<close>) has none left. \<open>topo E D vs\<close>: each node of \<open>vs\<close> comes
  after all its predecessors, which are in \<open>D\<close> or earlier in \<open>vs\<close>.
\<close>

definition cnt :: "(string \<times> string) list \<Rightarrow> string \<Rightarrow> int" where
  "cnt R v = int (length (filter (\<lambda>e. snd e = v) R))"

definition out_edges :: "(string \<times> string) list \<Rightarrow> string \<Rightarrow> (string \<times> string) list" where
  "out_edges E n = filter (\<lambda>e. fst e = n) E"

definition kinv ::
  "(string \<times> string) list \<Rightarrow> (string, int) dict \<Rightarrow> string set \<Rightarrow> (string \<times> string) list \<Rightarrow> bool" where
  "kinv E m Z R \<longleftrightarrow>
     distinct R \<and> set R \<subseteq> set E \<and>
     (\<forall>v d. map_of m v = Some d \<longrightarrow> d = cnt E v - cnt R v \<and> 0 < d) \<and>
     (\<forall>v\<in>Z. map_of m v = None \<and> cnt R v = cnt E v)"

fun topo :: "(string \<times> string) list \<Rightarrow> string set \<Rightarrow> string list \<Rightarrow> bool" where
  "topo E D [] = True"
| "topo E D (v # vs) = ((\<forall>u. (u, v) \<in> set E \<longrightarrow> u \<in> D) \<and> topo E (insert v D) vs)"

definition ginv :: "digraph \<Rightarrow> string list \<Rightarrow> (string, int) dict \<Rightarrow> string list \<Rightarrow> bool" where
  "ginv G D m z \<longleftrightarrow>
     distinct (D @ z) \<and>
     kinv (keys (adj G)) m (set D \<union> set z) (concat (map (out_edges (keys (adj G))) D)) \<and>
     set (keys (node_attr G)) \<subseteq> set D \<union> set z \<union> dom (map_of m)"

definition wf_digraph :: "digraph \<Rightarrow> bool" where
  "wf_digraph G \<longleftrightarrow>
     distinct (keys (node_attr G)) \<and> distinct (keys (adj G)) \<and>
     (\<forall>e\<in>set (keys (adj G)). fst e \<in> set (keys (node_attr G)) \<and> snd e \<in> set (keys (node_attr G)))"

text \<open>
  For the run: the nodes with a recorded outcome; the invariant \<open>good\<close> of the request log
  (an outcome is recorded only after a request, the names in \<open>c_done\<close> have been requested
  earlier, and every predecessor of a requested node is in its \<open>c_done\<close>); and the nodes
  whose primary request failed.
\<close>

definition done_nodes :: "state \<Rightarrow> string set" where
  "done_nodes s = set (keys (results s)) \<union> set (keys (errors s))"

definition good :: "(string \<times> string) list \<Rightarrow> state \<Rightarrow> bool" where
  "good E s \<longleftrightarrow>
     done_nodes s \<subseteq> c_node ` set (calls s) \<and>
     (\<forall>i<length (calls s). set (c_done (calls s ! i)) \<subseteq> c_node ` set (take i (calls s))) \<and>
     (\<forall>c\<in>set (calls s). \<forall>u. (u, c_node c) \<in> set E \<longrightarrow> u \<in> set (c_done c))"

definition failed_primaries :: "call list \<Rightarrow> string list" where
  "failed_primaries cs = map c_node (filter (\<lambda>c. \<not> c_fallback c \<and> isl (c_resp c)) cs)"

definition errs_ok :: "state \<Rightarrow> bool" where
  "errs_ok s \<longleftrightarrow> set (keys (errors s)) = set (failed_primaries (calls s))"

text \<open>
  The edges of a graph description as a relation; sets of nodes closed under predecessors;
  and a digraph with the nodes' own fallback fields erased.
\<close>

definition edge_rel :: "graph \<Rightarrow> (string \<times> string) set" where
  "edge_rel g = (\<lambda>e. (edge_from e, edge_to e)) ` set (edges g)"

definition pred_closed :: "(string \<times> string) list \<Rightarrow> string set \<Rightarrow> bool" where
  "pred_closed E S \<longleftrightarrow> (\<forall>u v. (u, v) \<in> set E \<longrightarrow> v \<in> S \<longrightarrow> u \<in> S)"

definition without_own_fallback :: "node \<Rightarrow> node" where
  "without_own_fallback nd = nd\<lparr>node_fallback := None\<rparr>"

definition strip_digraph :: "digraph \<Rightarrow> digraph" where
  "strip_digraph G =
     G\<lparr>node_attr := map (\<lambda>(k, a). (k, map_option without_own_fallback a)) (node_attr G)\<rparr>"

section \<open>Example graphs and services\<close>

text \<open>
  \<open>ex_graph\<close> is \<open>A \<rightarrow> fallback\<close>, with an edge whose fallback is the object
  \<open>{"fallback": "http://fb"}\<close>. The service at \<open>http://a\<close> answers \<open>{"v": 1}\<close>, the one at
  \<open>http://b\<close> fails with \<open>boom\<close>, and \<open>http://fb\<close> echoes its body when it is up and fails
  with \<open>down\<close> otherwise.
\<close>

definition ex_nodes :: "node list" where
  "ex_nodes =
     [\<lparr>name = ''A'', endpoint = ''http://a'', inputs = [], node_fallback = None\<rparr>,
      \<lparr>name = ''fallback'', endpoint = ''http://b'', inputs = [(''x'', ''A'')],
        node_fallback = None\<rparr>]"

definition ex_edge :: edge where
  "ex_edge = \<lparr>edge_from = ''A'', edge_to = ''fallback'',
               edge_fallback = Some (JObj [(''fallback'', JStr ''http://fb'')])\<rparr>"

definition ex_graph :: graph where
  "ex_graph = \<lparr>nodes = ex_nodes, edges = [ex_edge]\<rparr>"

definition ex_post :: "bool \<Rightarrow> transport" where
  "ex_post fb_up t url body =
     (if url = JStr ''http://a'' then Inr (JObj [(''v'', JNum 1)])
      else if url = JStr ''http://fb'' \<and> fb_up then Inr (JObj body)
      else if url = JStr ''http://fb'' then Inl ''down''
      else Inl ''boom'')"

definition alone_graph :: graph where
  "alone_graph =
     \<lparr>nodes = [\<lparr>name = ''A'', endpoint = ''http://b'', inputs = [],
                 node_fallback = Some (JStr ''http://fb'')\<rparr>],
       edges = []\<rparr>"

definition siblings_graph :: graph where
  "siblings_graph =
     \<lparr>nodes = [\<lparr>name = ''A'', endpoint = ''http://b'', inputs = [], node_fallback = None\<rparr>,
               \<lparr>name = ''B'', endpoint = ''http://a'', inputs = [], node_fallback = None\<rparr>],
       edges = []\<rparr>"

definition cyclic_graph :: graph where
  "cyclic_graph =
     \<lparr>nodes = [\<lparr>name = ''A'', endpoint = ''http://a'', inputs = [], node_fallback = None\<rparr>,
               \<lparr>name = ''B'', endpoint = ''http://a'', inputs = [], node_fallback = None\<rparr>,
               \<lparr>name = ''C'', endpoint = ''http://a'', inputs = [], node_fallback = None\<rparr>],
       edges = [\<lparr>edge_from = ''B'', edge_to = ''C'', edge_fallback = None\<rparr>,
               \<lparr>edge_from = ''C'', edge_to = ''B'', edge_fallback = None\<rparr>]\<rparr>"

definition dangling_graph :: graph where
  "dangling_graph =
     \<lparr>nodes = [\<lparr>name = ''A'', endpoint = ''http://a'', inputs = [], node_fallback = None\<rparr>],
       edges = [\<lparr>edge_from = ''A'', edge_to = ''X'', edge_fallback = None\<rparr>]\<rparr>"

definition duplicate_graph :: graph where
  "duplicate_graph =
     \<lparr>nodes = [\<lparr>name = ''A'', endpoint = ''http://b'', inputs = [], node_fallback = None\<rparr>,
               \<lparr>name = ''A'', endpoint = ''http://a'', inputs = [], node_fallback = None\<rparr>],
       edges = []\<rparr>"

definition alone_graph_bare :: graph where
  "alone_graph_bare =
     \<lparr>nodes = [\<lparr>name = ''A'', endpoint = ''http://b'', inputs = [], node_fallback = None\<rparr>],
       edges = []\<rparr>"

definition string_fallback_graph :: graph where
  "string_fallback_graph =
     \<lparr>nodes = [\<lparr>name = ''A'', endpoint = ''http://a'', inputs = [], node_fallback = None\<rparr>,
               \<lparr>name = ''B'', endpoint = ''http://b'', inputs = [], node_fallback = None\<rparr>],
       edges = [\<lparr>edge_from = ''A'', edge_to = ''B'',
                 edge_fallback = Some (JStr ''http://fb'')\<rparr>]\<rparr>"

definition ex_call_A :: call where
  "ex_call_A = \<lparr>c_node = ''A'', c_fallback = False, c_url = JStr ''http://a'', c_body = [],
                 c_resp = Inr (JObj [(''v'', JNum 1)]), c_done = []\<rparr>"

definition ex_call_primary :: call where
  "ex_call_primary =
     \<lparr>c_node = ''fallback'', c_fallback = False, c_url = JStr ''http://b'',
      c_body = [(''x'', JObj [(''v'', JNum 1)])], c_resp = Inl ''boom'', c_done = [''A'']\<rparr>"

definition ex_call_fallback :: "string + json \<Rightarrow> call" where
  "ex_call_fallback r =
     \<lparr>c_node = ''fallback'', c_fallback = True, c_url = JStr ''http://fb'',
      c_body = [(''x'', JObj [(''v'', JNum 1)])], c_resp = r, c_done = [''A'', ''fallback'']\<rparr>"

definition ex_call_failing_A :: call where
  "ex_call_failing_A = \<lparr>c_node = ''A'', c_fallback = False, c_url = JStr ''http://b'', c_body = [],
                         c_resp = Inl ''boom'', c_done = []\<rparr>"

definition ex_call_failing_B :: call where
  "ex_call_failing_B = \<lparr>c_node = ''B'', c_fallback = False, c_url = JStr ''http://b'', c_body = [],
                         c_resp = Inl ''boom'', c_done = [''A'']\<rparr>"

section \<open>The digraph and its topological sort\<close>

lemma cnt_snoc: "cnt (R @ [(n, c)]) v = (if v = c then cnt R v + 1 else cnt R v)"
  by (simp add: cnt_def)

lemma relax_kinv:
  assumes inv: "kinv E m Z R" and e: "(n, c) \<in> set E" "(n, c) \<notin> set R"
    and r: "relax (m, z) c = Some (m', z')"
  shows "\<exists>new. z' = z @ new \<and> set new \<subseteq> {c} \<and> distinct new \<and> set new \<inter> Z = {} \<and>
           dom (map_of m) \<subseteq> dom (map_of m') \<union> set new \<and>
           kinv E m' (Z \<union> set new) (R @ [(n, c)])"
proof -
  from r obtain d where d: "map_of m c = Some d"
    by (auto simp: relax_def split: option.splits)
  with inv have dv: "d = cnt E c - cnt R c" "0 < d" and cZ: "c \<notin> Z"
    by (auto simp: kinv_def)
  from inv e have base: "distinct (R @ [(n, c)])" "set (R @ [(n, c)]) \<subseteq> set E"
    by (auto simp: kinv_def)
  show ?thesis
  proof (cases "d - 1 = 0")
    case True
    with r d have m': "m' = AList.delete c m" and z': "z' = z @ [c]"
      by (auto simp: relax_def)
    have "kinv E m' (Z \<union> set [c]) (R @ [(n, c)])"
      unfolding kinv_def using inv base dv True
      by (auto simp: m' AList.delete_conv' cnt_snoc kinv_def)
    moreover have "dom (map_of m) \<subseteq> dom (map_of m') \<union> set [c]"
      by (auto simp: m' AList.delete_conv')
    ultimately show ?thesis using z' cZ by (intro exI [of _ "[c]"]) simp
  next
    case False
    with r d have m': "m' = AList.update c (d - 1) m" and z': "z' = z"
      by (auto simp: relax_def)
    have "kinv E m' (Z \<union> set []) (R @ [(n, c)])"
      unfolding kinv_def using inv base dv False cZ
      by (auto simp: m' AList.update_conv' cnt_snoc kinv_def)
    moreover have "dom (map_of m) \<subseteq> dom (map_of m') \<union> set []"
      by (auto simp: m' AList.update_conv')
    ultimately show ?thesis using z' by (intro exI [of _ "[]"]) simp
  qed
qed

lemma relax_children_kinv:
  assumes "kinv E m Z R" and "\<forall>c\<in>set cs. (n, c) \<in> set E" and "\<forall>c\<in>set cs. (n, c) \<notin> set R"
    and "distinct cs" and "relax_children (m, z) cs = Some (m', z')"
  shows "\<exists>new. z' = z @ new \<and> distinct new \<and> set new \<inter> Z = {} \<and>
           dom (map_of m) \<subseteq> dom (map_of m') \<union> set new \<and>
           kinv E m' (Z \<union> set new) (R @ map (Pair n) cs)"
  using assms
proof (induction cs arbitrary: m z Z R)
  case Nil
  then show ?case by (intro exI [of _ "[]"]) simp
next
  case (Cons c cs)
  from Cons.prems(5) obtain m1 z1 where s1: "relax (m, z) c = Some (m1, z1)"
    and s2: "relax_children (m1, z1) cs = Some (m', z')"
    by (auto split: option.splits)
  from Cons.prems have "(n, c) \<in> set E" "(n, c) \<notin> set R" by simp_all
  from relax_kinv [OF Cons.prems(1) this s1] obtain new1 where
    n1: "z1 = z @ new1" "set new1 \<subseteq> {c}" "distinct new1" "set new1 \<inter> Z = {}"
      "dom (map_of m) \<subseteq> dom (map_of m1) \<union> set new1"
      "kinv E m1 (Z \<union> set new1) (R @ [(n, c)])"
    by blast
  have "\<forall>c'\<in>set cs. (n, c') \<notin> set (R @ [(n, c)])"
    using Cons.prems(3,4) by auto
  with Cons.IH [OF n1(6) _ _ _ s2] Cons.prems(2,4) obtain new2 where
    n2: "z' = z1 @ new2" "distinct new2" "set new2 \<inter> (Z \<union> set new1) = {}"
      "dom (map_of m1) \<subseteq> dom (map_of m') \<union> set new2"
      "kinv E m' (Z \<union> set new1 \<union> set new2) ((R @ [(n, c)]) @ map (Pair n) cs)"
    by auto
  show ?case
  proof (intro exI [of _ "new1 @ new2"] conjI)
    show "z' = z @ new1 @ new2" using n1 n2 by simp
    show "distinct (new1 @ new2)" using n1 n2 by auto
    show "set (new1 @ new2) \<inter> Z = {}" using n1 n2 by auto
    show "dom (map_of m) \<subseteq> dom (map_of m') \<union> set (new1 @ new2)" using n1(5) n2(4) by auto
    show "kinv E m' (Z \<union> set (new1 @ new2)) (R @ map (Pair n) (c # cs))"
      using n2(5) by (simp add: Un_assoc)
  qed
qed

lemma neighbors_out_edges: "neighbors G n = map snd (out_edges (keys (adj G)) n)"
  by (simp add: neighbors_def out_edges_def keys_def filter_map comp_def)

lemma Pair_out_edges: "map (Pair n) (map snd (out_edges E n)) = out_edges E n"
  by (induction E) (auto simp: out_edges_def)

lemma distinct_out_targets: "distinct E \<Longrightarrow> distinct (map snd (out_edges E n))"
  by (induction E) (auto simp: out_edges_def)

lemma in_degree_cnt: "in_degree G v = cnt (keys (adj G)) v"
  by (simp add: in_degree_def cnt_def keys_def filter_map comp_def)

lemma relax_nodes_kinv:
  assumes "kinv E m Z R" and "E = keys (adj G)" and "distinct E" and "distinct ns"
    and "set ns \<inter> fst ` set R = {}" and "relax_nodes G (m, z) ns = Some (m', z')"
  shows "\<exists>new. z' = z @ new \<and> distinct new \<and> set new \<inter> Z = {} \<and>
           dom (map_of m) \<subseteq> dom (map_of m') \<union> set new \<and>
           kinv E m' (Z \<union> set new) (R @ concat (map (out_edges E) ns))"
  using assms
proof (induction ns arbitrary: m z Z R)
  case Nil
  then show ?case by (intro exI [of _ "[]"]) simp
next
  case (Cons n ns)
  from Cons.prems(6) obtain m1 z1 where
    s1: "relax_children (m, z) (map snd (out_edges E n)) = Some (m1, z1)"
    and s2: "relax_nodes G (m1, z1) ns = Some (m', z')"
    by (auto split: option.splits if_splits simp: neighbors_out_edges Cons.prems(2))
  have a: "\<forall>c\<in>set (map snd (out_edges E n)). (n, c) \<in> set E"
    by (auto simp: out_edges_def)
  have b: "\<forall>c\<in>set (map snd (out_edges E n)). (n, c) \<notin> set R"
    using Cons.prems(5) by force
  from relax_children_kinv [OF Cons.prems(1) a b distinct_out_targets [OF Cons.prems(3)] s1]
  obtain new1 where
    n1: "z1 = z @ new1" "distinct new1" "set new1 \<inter> Z = {}"
      "dom (map_of m) \<subseteq> dom (map_of m1) \<union> set new1"
      "kinv E m1 (Z \<union> set new1) (R @ out_edges E n)"
    unfolding Pair_out_edges by (elim exE conjE) (rule that)
  have c: "set ns \<inter> fst ` set (R @ out_edges E n) = {}"
    using Cons.prems(4,5) by (auto simp: out_edges_def)
  from Cons.IH [OF n1(5) Cons.prems(2,3) _ c s2] Cons.prems(4) obtain new2 where
    n2: "z' = z1 @ new2" "distinct new2" "set new2 \<inter> (Z \<union> set new1) = {}"
      "dom (map_of m1) \<subseteq> dom (map_of m') \<union> set new2"
      "kinv E m' (Z \<union> set new1 \<union> set new2) ((R @ out_edges E n) @ concat (map (out_edges E) ns))"
    by auto
  show ?case
  proof (intro exI [of _ "new1 @ new2"] conjI)
    show "z' = z @ new1 @ new2" using n1 n2 by simp
    show "distinct (new1 @ new2)" using n1 n2 by auto
    show "set (new1 @ new2) \<inter> Z = {}" using n1 n2 by auto
    show "dom (map_of m) \<subseteq> dom (map_of m') \<union> set (new1 @ new2)" using n1(4) n2(4) by auto
    show "kinv E m' (Z \<union> set (new1 @ new2)) (R @ concat (map (out_edges E) (n # ns)))"
      using n2(5) by (simp add: Un_assoc)
  qed
qed

lemma kinv_in_edges:
  assumes "kinv E m Z R" and "distinct E" and "v \<in> Z" and "(u, v) \<in> set E"
  shows "(u, v) \<in> set R"
proof -
  let ?A = "set (filter (\<lambda>e. snd e = v) R)" and ?B = "set (filter (\<lambda>e. snd e = v) E)"
  from assms(1) have dR: "distinct R" and sub: "set R \<subseteq> set E"
    and eq: "cnt R v = cnt E v"
    using assms(3) by (simp_all add: kinv_def)
  have cA: "card ?A = length (filter (\<lambda>e. snd e = v) R)"
    by (rule distinct_card) (rule distinct_filter, rule dR)
  have cB: "card ?B = length (filter (\<lambda>e. snd e = v) E)"
    by (rule distinct_card) (rule distinct_filter, rule assms(2))
  from eq have "length (filter (\<lambda>e. snd e = v) R) = length (filter (\<lambda>e. snd e = v) E)"
    by (simp add: cnt_def)
  with cA cB have ceq: "card ?A = card ?B" by (simp only:)
  have fin: "finite ?B" by (rule finite_set)
  have AB: "?A \<subseteq> ?B" using sub by auto
  have "?A = ?B" by (rule card_subset_eq [OF fin AB ceq])
  moreover have "(u, v) \<in> ?B" using assms(4) by simp
  ultimately have "(u, v) \<in> ?A" by (simp only:)
  then show ?thesis by simp
qed

lemma topo_mono: "topo E D vs \<Longrightarrow> D \<subseteq> D' \<Longrightarrow> topo E D' vs"
proof (induction vs arbitrary: D D')
  case Nil
  then show ?case by simp
next
  case (Cons v vs)
  from Cons.prems have "topo E (insert v D) vs" "insert v D \<subseteq> insert v D'" by auto
  from Cons.IH [OF this] Cons.prems show ?case by auto
qed

lemma topo_append: "topo E D (xs @ ys) \<longleftrightarrow> topo E D xs \<and> topo E (D \<union> set xs) ys"
  by (induction xs arbitrary: D) (auto simp: insert_commute Un_commute)

lemma topo_all: "\<forall>v\<in>set vs. \<forall>u. (u, v) \<in> set E \<longrightarrow> u \<in> D \<Longrightarrow> topo E D vs"
proof (induction vs arbitrary: D)
  case Nil
  then show ?case by simp
next
  case (Cons v vs)
  then have "topo E D vs" by simp
  then have "topo E (insert v D) vs" by (rule topo_mono) auto
  with Cons.prems show ?case by simp
qed

lemma fst_concat_out: "fst ` set (concat (map (out_edges E) D)) \<subseteq> set D"
  by (auto simp: out_edges_def)

lemma generations_Nil:
  "generations G m [] = ([], if m \<noteq> [] then Some NetworkXUnfeasible else None)"
  by (subst generations.simps) simp

lemma generations_None:
  "z \<noteq> [] \<Longrightarrow> relax_nodes G (m, []) z = None \<Longrightarrow> generations G m z = ([], Some RuntimeError)"
  by (simp add: generations.simps)

lemma generations_Some:
  "z \<noteq> [] \<Longrightarrow> relax_nodes G (m, []) z = Some (m', z') \<Longrightarrow>
     generations G m z = (z # fst (generations G m' z'), snd (generations G m' z'))"
  by (subst generations.simps) (simp add: case_prod_beta)

lemma generations_correct:
  assumes "ginv G D m z" and "distinct (keys (adj G))" and "generations G m z = (gs, e)"
  shows "distinct (D @ concat gs) \<and> topo (keys (adj G)) (set D) (concat gs) \<and>
         (e = None \<longrightarrow> set (keys (node_attr G)) \<subseteq> set D \<union> set (concat gs))"
  using assms
proof (induction G m z arbitrary: D gs e rule: generations.induct)
  case (1 G m z)
  let ?E = "keys (adj G)"
  let ?R = "concat (map (out_edges ?E) D)"
  show ?case
  proof (cases "z = []")
    case True
    with "1.prems"(3) have gs: "gs = []" and e: "e = (if m \<noteq> [] then Some NetworkXUnfeasible else None)"
      by (simp_all add: generations_Nil)
    from "1.prems"(1) True e show ?thesis
      by (auto simp: gs ginv_def split: if_splits)
  next
    case False
    show ?thesis
    proof (cases "relax_nodes G (m, []) z")
      case None
      from generations_None [OF False None] "1.prems"(3) have "gs = []" "e = Some RuntimeError"
        by simp_all
      then show ?thesis using "1.prems"(1) by (simp add: ginv_def)
    next
      case (Some st)
      obtain m' z' where st: "st = (m', z')" by (cases st)
      obtain gs' e' where rec: "generations G m' z' = (gs', e')"
        by (cases "generations G m' z'")
      from generations_Some [OF False Some [unfolded st]] rec "1.prems"(3)
      have gs: "gs = z # gs'" and e: "e = e'"
        by simp_all
      from "1.prems"(1) have dz: "distinct (D @ z)"
        and k: "kinv ?E m (set D \<union> set z) ?R"
        and cov: "set (keys (node_attr G)) \<subseteq> set D \<union> set z \<union> dom (map_of m)"
        by (simp_all add: ginv_def)
      have disj: "set z \<inter> fst ` set ?R = {}"
        using dz fst_concat_out [of ?E D] by auto
      from dz have "distinct z" by simp
      from relax_nodes_kinv [OF k refl "1.prems"(2) this disj Some [unfolded st]]
      obtain new where new: "z' = new" "distinct new" "set new \<inter> (set D \<union> set z) = {}"
        "dom (map_of m) \<subseteq> dom (map_of m') \<union> set new"
        "kinv ?E m' (set D \<union> set z \<union> set new) (?R @ concat (map (out_edges ?E) z))"
        by auto
      have g': "ginv G (D @ z) m' z'"
        unfolding ginv_def
      proof (intro conjI)
        show "distinct ((D @ z) @ z')" using new(1-3) dz by auto
        show "kinv ?E m' (set (D @ z) \<union> set z') (concat (map (out_edges ?E) (D @ z)))"
          using new(5) by (simp add: new(1))
        show "set (keys (node_attr G)) \<subseteq> set (D @ z) \<union> set z' \<union> dom (map_of m')"
          using cov new(4) unfolding new(1) by auto
      qed
      from "1.IH" [OF False Some [unfolded st] refl g' "1.prems"(2) rec]
      have ih: "distinct ((D @ z) @ concat gs')" "topo ?E (set (D @ z)) (concat gs')"
        "e' = None \<longrightarrow> set (keys (node_attr G)) \<subseteq> set (D @ z) \<union> set (concat gs')"
        by simp_all
      have "\<forall>v\<in>set z. \<forall>u. (u, v) \<in> set ?E \<longrightarrow> u \<in> set D"
      proof (intro ballI allI impI)
        fix v u assume "v \<in> set z" "(u, v) \<in> set ?E"
        with kinv_in_edges [OF k "1.prems"(2)] have "(u, v) \<in> set ?R" by simp
        with fst_concat_out [of ?E D] show "u \<in> set D" by force
      qed
      then have tz: "topo ?E (set D) z" by (rule topo_all)
      have c1: "distinct (D @ concat gs)" using ih(1) by (simp add: gs)
      have c2: "topo ?E (set D) (concat gs)"
        using tz ih(2) by (simp add: gs topo_append)
      have c3: "e = None \<longrightarrow> set (keys (node_attr G)) \<subseteq> set D \<union> set (concat gs)"
        using ih(3) by (simp add: gs e Un_assoc)
      from c1 c2 c3 show ?thesis by blast
    qed
  qed
qed

lemma keys_update: "set (keys (AList.update k v al)) = insert k (set (keys al))"
  using AList.dom_update [of k v al] by (simp add: keys_def)

lemma distinct_keys_update: "distinct (keys al) \<Longrightarrow> distinct (keys (AList.update k v al))"
  by (simp add: keys_def AList.distinct_update)

lemma add_node_keys: "set (keys (node_attr (add_node n a G))) = insert n (set (keys (node_attr G)))"
  by (auto simp: add_node_def keys_update split: option.splits)

lemma add_node_adj: "adj (add_node n a G) = adj G"
  by (auto simp: add_node_def split: option.splits)

lemma add_node_distinct:
  "distinct (keys (node_attr G)) \<Longrightarrow> distinct (keys (node_attr (add_node n a G)))"
  by (auto simp: add_node_def distinct_keys_update split: option.splits)

lemma touch_node_keys: "set (keys (node_attr (touch_node n G))) = insert n (set (keys (node_attr G)))"
  by (auto simp: touch_node_def keys_def)

lemma touch_node_adj: "adj (touch_node n G) = adj G"
  by (simp add: touch_node_def)

lemma touch_node_distinct:
  "distinct (keys (node_attr G)) \<Longrightarrow> distinct (keys (node_attr (touch_node n G)))"
  by (auto simp: touch_node_def keys_def)

lemma add_edge_node_keys:
  "set (keys (node_attr (add_edge u v fb G))) = insert u (insert v (set (keys (node_attr G))))"
  by (auto simp: add_edge_def Let_def touch_node_keys)

lemma add_edge_adj_keys:
  "set (keys (adj (add_edge u v fb G))) = insert (u, v) (set (keys (adj G)))"
  by (simp add: add_edge_def Let_def keys_update touch_node_adj)

lemma add_edge_wf: "wf_digraph G \<Longrightarrow> wf_digraph (add_edge u v fb G)"
  unfolding wf_digraph_def add_edge_node_keys add_edge_adj_keys
  by (auto simp: add_edge_def Let_def touch_node_distinct touch_node_adj distinct_keys_update)

lemma add_node_wf:
  assumes "wf_digraph G" and "adj G = []"
  shows "wf_digraph (add_node n a G)"
proof -
  have "keys (adj (add_node n a G)) = []" by (simp add: add_node_adj assms(2) keys_def)
  moreover from assms(1) have "distinct (keys (node_attr (add_node n a G)))"
    by (simp add: wf_digraph_def add_node_distinct)
  ultimately show ?thesis by (simp add: wf_digraph_def)
qed

lemma fold_add_node:
  "wf_digraph G \<Longrightarrow> adj G = [] \<Longrightarrow>
     wf_digraph (fold (\<lambda>n. add_node (name n) n) ns G) \<and>
     adj (fold (\<lambda>n. add_node (name n) n) ns G) = [] \<and>
     set (keys (node_attr (fold (\<lambda>n. add_node (name n) n) ns G))) =
       name ` set ns \<union> set (keys (node_attr G))"
proof (induction ns arbitrary: G)
  case Nil
  then show ?case by simp
next
  case (Cons a ns)
  from Cons.prems have "wf_digraph (add_node (name a) a G)" "adj (add_node (name a) a G) = []"
    by (simp_all add: add_node_wf add_node_adj)
  from Cons.IH [OF this] show ?case by (auto simp: add_node_keys)
qed

lemma fold_add_edge:
  "wf_digraph G \<Longrightarrow>
     wf_digraph (fold (\<lambda>e. add_edge (edge_from e) (edge_to e) (edge_get_fallback e)) es G) \<and>
     set (keys (adj (fold (\<lambda>e. add_edge (edge_from e) (edge_to e) (edge_get_fallback e)) es G))) =
       (\<lambda>e. (edge_from e, edge_to e)) ` set es \<union> set (keys (adj G)) \<and>
     set (keys (node_attr G)) \<subseteq>
       set (keys (node_attr (fold (\<lambda>e. add_edge (edge_from e) (edge_to e) (edge_get_fallback e)) es G)))"
proof (induction es arbitrary: G)
  case Nil
  then show ?case by simp
next
  case (Cons a es)
  from Cons.prems have "wf_digraph (add_edge (edge_from a) (edge_to a) (edge_get_fallback a) G)"
    by (rule add_edge_wf)
  from Cons.IH [OF this] show ?case by (auto simp: add_edge_adj_keys add_edge_node_keys)
qed

lemma wf_DiGraph: "wf_digraph DiGraph" "adj DiGraph = []" "node_attr DiGraph = []"
  by (simp_all add: wf_digraph_def DiGraph_def keys_def)

lemma build_wf: "wf_digraph (build g)"
  unfolding build_def using fold_add_node [OF wf_DiGraph(1,2)] fold_add_edge by blast

lemma build_edges: "set (keys (adj (build g))) = (\<lambda>e. (edge_from e, edge_to e)) ` set (edges g)"
proof -
  let ?G1 = "fold (\<lambda>n. add_node (name n) n) (nodes g) DiGraph"
  from fold_add_node [OF wf_DiGraph(1,2), of "nodes g"] have "wf_digraph ?G1" "adj ?G1 = []"
    by simp_all
  with fold_add_edge [of ?G1 "edges g"] show ?thesis by (simp add: build_def keys_def)
qed

lemma build_nodes: "name ` set (nodes g) \<subseteq> set (keys (node_attr (build g)))"
proof -
  let ?G1 = "fold (\<lambda>n. add_node (name n) n) (nodes g) DiGraph"
  from fold_add_node [OF wf_DiGraph(1,2), of "nodes g"]
  have "wf_digraph ?G1" "name ` set (nodes g) \<subseteq> set (keys (node_attr ?G1))"
    by simp_all
  with fold_add_edge [of ?G1 "edges g"] show ?thesis unfolding build_def by blast
qed

lemma init_ginv:
  assumes "wf_digraph G"
  shows "ginv G []
          (filter (\<lambda>(v, d). d > 0) (map (\<lambda>v. (v, in_degree G v)) (keys (node_attr G))))
          (filter (\<lambda>v. in_degree G v = 0) (keys (node_attr G)))"
proof -
  let ?V = "keys (node_attr G)"
  let ?m = "filter (\<lambda>(v, d). d > 0) (map (\<lambda>v. (v, in_degree G v)) ?V)"
  let ?z = "filter (\<lambda>v. in_degree G v = 0) ?V"
  have some: "d = in_degree G v \<and> 0 < d" if "map_of ?m v = Some d" for v d
    using map_of_SomeD [OF that] by auto
  have none: "map_of ?m v = None" if "in_degree G v = 0" for v
  proof (cases "map_of ?m v")
    case None
    then show ?thesis .
  next
    case (Some d)
    from some [OF this] that have False by auto
    then show ?thesis ..
  qed
  have dom: "v \<in> dom (map_of ?m)" if "v \<in> set ?V" "in_degree G v \<noteq> 0" for v
  proof -
    have "0 \<le> in_degree G v" by (simp add: in_degree_def)
    with that have "(v, in_degree G v) \<in> set ?m" by auto
    then have "v \<in> fst ` set ?m" by force
    then show ?thesis by (simp add: dom_map_of_conv_image_fst)
  qed
  have k: "kinv (keys (adj G)) ?m (set [] \<union> set ?z) (concat (map (out_edges (keys (adj G))) []))"
    unfolding kinv_def
  proof (intro conjI allI impI ballI)
    fix v d assume md: "map_of ?m v = Some d"
    from some [OF md] show "0 < d" by blast
    from some [OF md] have "d = cnt (keys (adj G)) v" by (simp add: in_degree_cnt)
    then show "d = cnt (keys (adj G)) v - cnt (concat (map (out_edges (keys (adj G))) [])) v"
      by (simp add: cnt_def)
  next
    fix v assume "v \<in> set [] \<union> set ?z"
    then have z: "in_degree G v = 0" by simp
    then show "map_of ?m v = None" by (rule none)
    from z show "cnt (concat (map (out_edges (keys (adj G))) [])) v = cnt (keys (adj G)) v"
      by (simp add: in_degree_cnt cnt_def)
  qed simp_all
  have d: "distinct ([] @ ?z)" using assms by (simp add: wf_digraph_def)
  have c: "set ?V \<subseteq> set [] \<union> set ?z \<union> dom (map_of ?m)"
    using dom by auto
  from d k c show ?thesis unfolding ginv_def by blast
qed

lemma topological_sort_correct:
  assumes "wf_digraph G" and "topological_sort G = (order, ending)"
  shows "distinct order" and "topo (keys (adj G)) {} order"
    and "ending = None \<Longrightarrow> set (keys (node_attr G)) \<subseteq> set order"
proof -
  obtain gs where gs: "topological_generations G = (gs, ending)" and o: "order = concat gs"
    using assms(2) by (auto simp: topological_sort_def split: prod.splits)
  from assms(1) have dE: "distinct (keys (adj G))" by (simp add: wf_digraph_def)
  from generations_correct [OF init_ginv [OF assms(1)] dE gs [unfolded topological_generations_def]]
  show "distinct order" and "topo (keys (adj G)) {} order"
    and "ending = None \<Longrightarrow> set (keys (node_attr G)) \<subseteq> set order"
    by (simp_all add: o)
qed

section \<open>One node\<close>

lemma run_node_cases:
  assumes "run_node post G n s = (x, s')"
  obtains
    (no_attr) k where "x = Some (KeyError k)" "s' = s"
      "\<forall>nd. map_of (node_attr G) n \<noteq> Some (Some nd)"
  | (ok) nd out where "map_of (node_attr G) n = Some (Some nd)"
      "c_resp (primary_call post nd n s) = Inr out" "x = None"
      "s' = s\<lparr>calls := calls s @ [primary_call post nd n s], clock := Suc (clock s),
              results := AList.update n out (results s)\<rparr>"
  | (abort) nd e ex where "map_of (node_attr G) n = Some (Some nd)"
      "c_resp (primary_call post nd n s) = Inl e" "x = Some ex"
      "find_fallback G n = Inl ex \<or>
         (\<exists>fb. find_fallback G n = Inr fb \<and> \<not> truthy fb \<and>
               ex = HTTPException 502 (n @ '' failed and no fallback available''))"
      "s' = s\<lparr>calls := calls s @ [primary_call post nd n s], clock := Suc (clock s),
              errors := AList.update n e (errors s)\<rparr>"
  | (recovered) nd e fb out where "map_of (node_attr G) n = Some (Some nd)"
      "c_resp (primary_call post nd n s) = Inl e" "find_fallback G n = Inr fb" "truthy fb"
      "c_resp (fallback_call post nd n fb e s) = Inr out" "x = None"
      "s' = s\<lparr>calls := calls s @ [primary_call post nd n s, fallback_call post nd n fb e s],
              clock := Suc (Suc (clock s)),
              errors := AList.update n e (errors s),
              results := AList.update n out (results s)\<rparr>"
  | (failed) nd e fb e2 where "map_of (node_attr G) n = Some (Some nd)"
      "c_resp (primary_call post nd n s) = Inl e" "find_fallback G n = Inr fb" "truthy fb"
      "c_resp (fallback_call post nd n fb e s) = Inl e2" "x = None"
      "s' = s\<lparr>calls := calls s @ [primary_call post nd n s, fallback_call post nd n fb e s],
              clock := Suc (Suc (clock s)),
              errors := AList.update n (e @ ''; fallback failed: '' @ e2) (errors s)\<rparr>"
  using assms
  unfolding run_node_def do_post_def primary_call_def fallback_call_def Let_def
  by (auto split: option.splits sum.splits if_splits prod.splits simp: AList.update_conv')

lemma run_node_payload: "run_node post G n s = (x, s') \<Longrightarrow> payload s' = payload s"
  by (erule run_node_cases) auto

lemma run_nodes_payload: "run_nodes post G ns s = (x, s') \<Longrightarrow> payload s' = payload s"
proof (induction ns arbitrary: s)
  case Nil
  then show ?case by simp
next
  case (Cons n ns)
  obtain xn sn where step: "run_node post G n s = (xn, sn)" by (cases "run_node post G n s")
  then have p: "payload sn = payload s" by (rule run_node_payload)
  show ?case
  proof (cases xn)
    case None
    with Cons.prems step have "run_nodes post G ns sn = (x, s')" by simp
    from Cons.IH [OF this] p show ?thesis by simp
  next
    case (Some e)
    with Cons.prems step have "s' = sn" by simp
    with p show ?thesis by simp
  qed
qed

lemma run_node_unclock:
  "apsnd unclock (run_node (\<lambda>_. f) G n (unclock s)) = apsnd unclock (run_node (\<lambda>_. f) G n s)"
  unfolding run_node_def do_post_def Let_def unclock_def
  by (auto split: option.splits sum.splits if_splits prod.splits)

lemma run_nodes_unclock:
  "apsnd unclock (run_nodes (\<lambda>_. f) G ns (unclock s)) = apsnd unclock (run_nodes (\<lambda>_. f) G ns s)"
proof (induction ns arbitrary: s)
  case Nil
  then show ?case by (simp add: unclock_def)
next
  case (Cons n ns)
  obtain x1 s1 where a: "run_node (\<lambda>_. f) G n (unclock s) = (x1, s1)"
    by (cases "run_node (\<lambda>_. f) G n (unclock s)")
  obtain x2 s2 where b: "run_node (\<lambda>_. f) G n s = (x2, s2)"
    by (cases "run_node (\<lambda>_. f) G n s")
  from run_node_unclock [of f G n s] a b have eq: "x1 = x2" "unclock s1 = unclock s2" by simp_all
  show ?case
  proof (cases x2)
    case None
    have "apsnd unclock (run_nodes (\<lambda>_. f) G ns s1) =
          apsnd unclock (run_nodes (\<lambda>_. f) G ns (unclock s1))"
      by (simp add: Cons.IH)
    also have "\<dots> = apsnd unclock (run_nodes (\<lambda>_. f) G ns s2)"
      by (simp add: eq Cons.IH)
    finally show ?thesis using a b eq None by simp
  next
    case (Some e)
    with a b eq show ?thesis by simp
  qed
qed

lemma execute_unclock:
  "apsnd unclock (execute (\<lambda>_. f) t g pl) = apsnd unclock (execute (\<lambda>_. f) 0 g pl)"
proof -
  obtain order ending where ts: "topological_sort (build g) = (order, ending)"
    by (cases "topological_sort (build g)")
  have i: "unclock (init_state t pl) = init_state 0 pl"
    by (simp add: unclock_def init_state_def)
  obtain x s where a: "run_nodes (\<lambda>_. f) (build g) order (init_state t pl) = (x, s)"
    by (cases "run_nodes (\<lambda>_. f) (build g) order (init_state t pl)")
  obtain y u where b: "run_nodes (\<lambda>_. f) (build g) order (init_state 0 pl) = (y, u)"
    by (cases "run_nodes (\<lambda>_. f) (build g) order (init_state 0 pl)")
  from run_nodes_unclock [of f "build g" order "init_state t pl"] a b i
  have "y = x" "unclock u = unclock s" by simp_all
  with ts a b show ?thesis by (cases x) (simp_all add: execute_def)
qed

section \<open>The whole run\<close>

lemma primary_call_sel [simp]:
  "c_node (primary_call post nd n s) = n"
  "c_fallback (primary_call post nd n s) = False"
  "c_url (primary_call post nd n s) = JStr (endpoint nd)"
  "c_body (primary_call post nd n s) = resolve_inputs (results s) (payload s) (inputs nd)"
  "set (c_done (primary_call post nd n s)) = done_nodes s"
  by (simp_all add: primary_call_def Let_def done_nodes_def)

lemma fallback_call_sel [simp]:
  "c_node (fallback_call post nd n url e s) = n"
  "c_fallback (fallback_call post nd n url e s) = True"
  "c_url (fallback_call post nd n url e s) = url"
  "c_body (fallback_call post nd n url e s) = resolve_inputs (results s) (payload s) (inputs nd)"
  "set (c_done (fallback_call post nd n url e s)) = insert n (done_nodes s)"
  by (auto simp: fallback_call_def Let_def done_nodes_def keys_update)

lemma run_node_done:
  assumes "run_node post G n s = (x, s')"
  shows "done_nodes s \<subseteq> done_nodes s'" and "done_nodes s' \<subseteq> insert n (done_nodes s)"
    and "x = None \<Longrightarrow> n \<in> done_nodes s'"
  using assms by (cases rule: run_node_cases; auto simp: done_nodes_def keys_update)+

lemma good_snoc:
  assumes "good E s" and "calls s' = calls s @ [c]" and "set (c_done c) \<subseteq> c_node ` set (calls s)"
    and "\<forall>u. (u, c_node c) \<in> set E \<longrightarrow> u \<in> set (c_done c)"
    and "done_nodes s' \<subseteq> insert (c_node c) (done_nodes s)"
  shows "good E s'"
  unfolding good_def
proof (intro conjI allI impI ballI)
  show "done_nodes s' \<subseteq> c_node ` set (calls s')"
    using assms(1,2,5) by (auto simp: good_def)
next
  fix i assume i: "i < length (calls s')"
  show "set (c_done (calls s' ! i)) \<subseteq> c_node ` set (take i (calls s'))"
  proof (cases "i < length (calls s)")
    case True
    with assms(1) show ?thesis by (simp add: assms(2) nth_append good_def)
  next
    case False
    with i have "i = length (calls s)" by (simp add: assms(2))
    with assms(3) show ?thesis by (simp add: assms(2))
  qed
next
  fix c' u assume "c' \<in> set (calls s')" "(u, c_node c') \<in> set E"
  with assms(1,2,4) show "u \<in> set (c_done c')" by (auto simp: good_def)
qed

lemma run_node_good:
  assumes g: "good E s" and p: "\<forall>u. (u, n) \<in> set E \<longrightarrow> u \<in> done_nodes s"
    and r: "run_node post G n s = (x, s')"
  shows "good E s'"
  using r
proof (cases rule: run_node_cases)
  case (no_attr k)
  with g show ?thesis by simp
next
  case (ok nd out)
  show ?thesis
  proof (rule good_snoc [OF g])
    show "calls s' = calls s @ [primary_call post nd n s]" by (simp add: ok(4))
    show "set (c_done (primary_call post nd n s)) \<subseteq> c_node ` set (calls s)"
      using g by (simp add: good_def)
    show "\<forall>u. (u, c_node (primary_call post nd n s)) \<in> set E \<longrightarrow> u \<in> set (c_done (primary_call post nd n s))"
      using p by simp
    show "done_nodes s' \<subseteq> insert (c_node (primary_call post nd n s)) (done_nodes s)"
      using run_node_done(2) [OF r] by simp
  qed
next
  case (abort nd e ex)
  show ?thesis
  proof (rule good_snoc [OF g])
    show "calls s' = calls s @ [primary_call post nd n s]" by (simp add: abort(5))
    show "set (c_done (primary_call post nd n s)) \<subseteq> c_node ` set (calls s)"
      using g by (simp add: good_def)
    show "\<forall>u. (u, c_node (primary_call post nd n s)) \<in> set E \<longrightarrow> u \<in> set (c_done (primary_call post nd n s))"
      using p by simp
    show "done_nodes s' \<subseteq> insert (c_node (primary_call post nd n s)) (done_nodes s)"
      using run_node_done(2) [OF r] by simp
  qed
next
  case (recovered nd e fb out)
  let ?s1 = "s\<lparr>calls := calls s @ [primary_call post nd n s]\<rparr>"
  have g1: "good E ?s1"
  proof (rule good_snoc [OF g])
    show "calls ?s1 = calls s @ [primary_call post nd n s]" by simp
    show "set (c_done (primary_call post nd n s)) \<subseteq> c_node ` set (calls s)"
      using g by (simp add: good_def)
    show "\<forall>u. (u, c_node (primary_call post nd n s)) \<in> set E \<longrightarrow> u \<in> set (c_done (primary_call post nd n s))"
      using p by simp
    show "done_nodes ?s1 \<subseteq> insert (c_node (primary_call post nd n s)) (done_nodes s)"
      by (auto simp: done_nodes_def)
  qed
  show ?thesis
  proof (rule good_snoc [OF g1])
    show "calls s' = calls ?s1 @ [fallback_call post nd n fb e s]" by (simp add: recovered(7))
    show "set (c_done (fallback_call post nd n fb e s)) \<subseteq> c_node ` set (calls ?s1)"
      using g by (auto simp: good_def)
    show "\<forall>u. (u, c_node (fallback_call post nd n fb e s)) \<in> set E \<longrightarrow> u \<in> set (c_done (fallback_call post nd n fb e s))"
      using p by simp
    show "done_nodes s' \<subseteq> insert (c_node (fallback_call post nd n fb e s)) (done_nodes ?s1)"
      using run_node_done(2) [OF r] by (auto simp: done_nodes_def)
  qed
next
  case (failed nd e fb e2)
  let ?s1 = "s\<lparr>calls := calls s @ [primary_call post nd n s]\<rparr>"
  have g1: "good E ?s1"
  proof (rule good_snoc [OF g])
    show "calls ?s1 = calls s @ [primary_call post nd n s]" by simp
    show "set (c_done (primary_call post nd n s)) \<subseteq> c_node ` set (calls s)"
      using g by (simp add: good_def)
    show "\<forall>u. (u, c_node (primary_call post nd n s)) \<in> set E \<longrightarrow> u \<in> set (c_done (primary_call post nd n s))"
      using p by simp
    show "done_nodes ?s1 \<subseteq> insert (c_node (primary_call post nd n s)) (done_nodes s)"
      by (auto simp: done_nodes_def)
  qed
  show ?thesis
  proof (rule good_snoc [OF g1])
    show "calls s' = calls ?s1 @ [fallback_call post nd n fb e s]" by (simp add: failed(7))
    show "set (c_done (fallback_call post nd n fb e s)) \<subseteq> c_node ` set (calls ?s1)"
      using g by (auto simp: good_def)
    show "\<forall>u. (u, c_node (fallback_call post nd n fb e s)) \<in> set E \<longrightarrow> u \<in> set (c_done (fallback_call post nd n fb e s))"
      using p by simp
    show "done_nodes s' \<subseteq> insert (c_node (fallback_call post nd n fb e s)) (done_nodes ?s1)"
      using run_node_done(2) [OF r] by (auto simp: done_nodes_def)
  qed
qed

lemma run_nodes_good:
  "good E s \<Longrightarrow> topo E (done_nodes s) ns \<Longrightarrow> run_nodes post G ns s = (x, s') \<Longrightarrow> good E s'"
proof (induction ns arbitrary: s)
  case Nil
  then show ?case by simp
next
  case (Cons n ns)
  obtain xn sn where step: "run_node post G n s = (xn, sn)" by (cases "run_node post G n s")
  from Cons.prems(2) have p: "\<forall>u. (u, n) \<in> set E \<longrightarrow> u \<in> done_nodes s"
    and t: "topo E (insert n (done_nodes s)) ns" by simp_all
  from run_node_good [OF Cons.prems(1) p step] have gn: "good E sn" .
  show ?case
  proof (cases xn)
    case None
    from run_node_done [OF step] None have "insert n (done_nodes s) \<subseteq> done_nodes sn" by auto
    with t have "topo E (done_nodes sn) ns" by (rule topo_mono)
    moreover from Cons.prems(3) step None have "run_nodes post G ns sn = (x, s')" by simp
    ultimately show ?thesis using Cons.IH gn by blast
  next
    case (Some e)
    with Cons.prems(3) step gn show ?thesis by simp
  qed
qed

lemma run_nodes_all_done:
  "run_nodes post G ns s = (None, s') \<Longrightarrow> set ns \<union> done_nodes s \<subseteq> done_nodes s'"
proof (induction ns arbitrary: s)
  case Nil
  then show ?case by simp
next
  case (Cons n ns)
  obtain xn sn where step: "run_node post G n s = (xn, sn)" by (cases "run_node post G n s")
  with Cons.prems have xn: "xn = None" and rest: "run_nodes post G ns sn = (None, s')"
    by (auto split: option.splits)
  from run_node_done [OF step] xn have "insert n (done_nodes s) \<subseteq> done_nodes sn" by auto
  with Cons.IH [OF rest] show ?case by auto
qed

lemma failed_primaries_append:
  "failed_primaries (cs @ ds) = failed_primaries cs @ failed_primaries ds"
  by (simp add: failed_primaries_def)

lemma failed_primaries_simps:
  "failed_primaries [] = []"
  "failed_primaries (c # cs) =
     (if \<not> c_fallback c \<and> isl (c_resp c) then c_node c # failed_primaries cs
      else failed_primaries cs)"
  by (simp_all add: failed_primaries_def)

lemma run_node_errs_ok: "errs_ok s \<Longrightarrow> run_node post G n s = (x, s') \<Longrightarrow> errs_ok s'"
  by (erule run_node_cases)
     (simp_all add: errs_ok_def keys_update failed_primaries_append failed_primaries_simps)

lemma run_nodes_errs_ok: "errs_ok s \<Longrightarrow> run_nodes post G ns s = (x, s') \<Longrightarrow> errs_ok s'"
proof (induction ns arbitrary: s)
  case Nil
  then show ?case by simp
next
  case (Cons n ns)
  obtain xn sn where step: "run_node post G n s = (xn, sn)" by (cases "run_node post G n s")
  from run_node_errs_ok [OF Cons.prems(1) step] have "errs_ok sn" .
  with Cons.IH [of sn] Cons.prems(2) step show ?case by (cases xn) auto
qed

lemma execute_run:
  assumes "execute post t0 g pl = (x, s)"
  obtains order ending y where "topological_sort (build g) = (order, ending)"
    and "run_nodes post (build g) order (init_state t0 pl) = (y, s)"
    and "x = (case y of None \<Rightarrow> ending | Some e \<Rightarrow> Some e)"
proof -
  obtain order ending where ts: "topological_sort (build g) = (order, ending)"
    by (cases "topological_sort (build g)")
  obtain y u where r: "run_nodes post (build g) order (init_state t0 pl) = (y, u)"
    by (cases "run_nodes post (build g) order (init_state t0 pl)")
  from assms ts r have "u = s" "x = (case y of None \<Rightarrow> ending | Some e \<Rightarrow> Some e)"
    by (auto simp: execute_def split: option.splits)
  with ts r that show ?thesis by blast
qed

lemma init_good: "good E (init_state t0 pl)" "errs_ok (init_state t0 pl)"
  "done_nodes (init_state t0 pl) = {}"
  by (simp_all add: good_def errs_ok_def init_state_def done_nodes_def keys_def
        failed_primaries_def)

lemma run_node_frame:
  assumes "run_node post G m s = (x, s')" and "m \<noteq> n"
  shows "view n s' = view n s"
  using assms
  by (cases rule: run_node_cases) (simp_all add: view_def AList.update_conv')

lemma run_nodes_frame:
  "run_nodes post G ns s = (x, s') \<Longrightarrow> n \<notin> set ns \<Longrightarrow> view n s' = view n s"
proof (induction ns arbitrary: s)
  case Nil
  then show ?case by simp
next
  case (Cons m ns)
  obtain xm sm where step: "run_node post G m s = (xm, sm)" by (cases "run_node post G m s")
  from Cons.prems(2) have "m \<noteq> n" by auto
  from run_node_frame [OF step this] have v: "view n sm = view n s" .
  show ?case
  proof (cases xm)
    case None
    with Cons.prems step have "run_nodes post G ns sm = (x, s')" "n \<notin> set ns" by simp_all
    from Cons.IH [OF this] v show ?thesis by simp
  next
    case (Some e)
    with Cons.prems step v show ?thesis by simp
  qed
qed

lemma run_nodes_view:
  assumes "run_nodes post G ns s = (x, s')" and "distinct ns" and "view n s = (None, None, [])"
  shows "view n s' = (None, None, []) \<or>
         (\<exists>s1 x2 s2. view n s1 = (None, None, []) \<and> run_node post G n s1 = (x2, s2) \<and>
            view n s' = view n s2 \<and> (x2 \<noteq> None \<longrightarrow> x = x2 \<and> s' = s2))"
  using assms
proof (induction ns arbitrary: s)
  case Nil
  then show ?case by simp
next
  case (Cons m ns)
  obtain xm sm where step: "run_node post G m s = (xm, sm)" by (cases "run_node post G m s")
  show ?case
  proof (cases "m = n")
    case True
    show ?thesis
    proof (cases xm)
      case None
      with Cons.prems step have rest: "run_nodes post G ns sm = (x, s')" by simp
      from Cons.prems(2) True have "n \<notin> set ns" by simp
      from run_nodes_frame [OF rest this] have "view n s' = view n sm" .
      with step True None Cons.prems(3) show ?thesis by blast
    next
      case (Some e)
      with Cons.prems(1) step have "x = xm" "s' = sm" by simp_all
      with step True Cons.prems(3) show ?thesis by blast
    qed
  next
    case False
    from run_node_frame [OF step False] Cons.prems(3) have v: "view n sm = (None, None, [])"
      by simp
    show ?thesis
    proof (cases xm)
      case None
      with Cons.prems step have "run_nodes post G ns sm = (x, s')" "distinct ns" by simp_all
      from Cons.IH [OF this v] show ?thesis .
    next
      case (Some e)
      with Cons.prems(1) step v show ?thesis by simp
    qed
  qed
qed

lemma execute_node_cases:
  assumes "execute post t0 g pl = (x, s)"
  obtains (untouched) "view n s = (None, None, [])"
  | (ran) s1 x2 s2 where "view n s1 = (None, None, [])"
      "run_node post (build g) n s1 = (x2, s2)" "view n s = view n s2"
      "x2 \<noteq> None \<longrightarrow> x = x2 \<and> s = s2"
proof -
  from assms obtain order ending y where
    ts: "topological_sort (build g) = (order, ending)"
    and r: "run_nodes post (build g) order (init_state t0 pl) = (y, s)"
    and x: "x = (case y of None \<Rightarrow> ending | Some e \<Rightarrow> Some e)"
    by (rule execute_run)
  have d: "distinct order" by (rule topological_sort_correct(1) [OF build_wf ts])
  have v0: "view n (init_state t0 pl) = (None, None, [])"
    by (simp add: view_def init_state_def)
  from run_nodes_view [OF r d v0] show ?thesis
  proof (elim disjE exE conjE)
    assume "view n s = (None, None, [])"
    then show ?thesis by (rule untouched)
  next
    fix s1 x2 s2
    assume a: "view n s1 = (None, None, [])" "run_node post (build g) n s1 = (x2, s2)"
      "view n s = view n s2" "x2 \<noteq> None \<longrightarrow> y = x2 \<and> s = s2"
    from a(4) x have "x2 \<noteq> None \<longrightarrow> x = x2 \<and> s = s2" by auto
    with a(1-3) show ?thesis by (rule ran)
  qed
qed

lemma run_node_view:
  assumes "run_node post G n s1 = (x2, s2)" and "view n s1 = (None, None, [])"
  obtains (no_attr) "view n s2 = (None, None, [])"
  | (ok) p out where "view n s2 = (Some out, None, [p])" "\<not> c_fallback p" "c_resp p = Inr out"
  | (abort) p e ex where "view n s2 = (None, Some e, [p])" "\<not> c_fallback p" "c_resp p = Inl e"
      "x2 = Some ex" "calls s2 = calls s1 @ [p]"
      "find_fallback G n = Inl ex \<or>
         (\<exists>fb. find_fallback G n = Inr fb \<and> \<not> truthy fb \<and>
               ex = HTTPException 502 (n @ '' failed and no fallback available''))"
  | (recovered) p f e out where "view n s2 = (Some out, Some e, [p, f])"
      "\<not> c_fallback p" "c_resp p = Inl e" "c_fallback f" "c_resp f = Inr out"
      "c_body f = c_body p" "find_fallback G n = Inr (c_url f)" "truthy (c_url f)"
  | (failed) p f e e2 where
      "view n s2 = (None, Some (e @ ''; fallback failed: '' @ e2), [p, f])"
      "\<not> c_fallback p" "c_resp p = Inl e" "c_fallback f" "c_resp f = Inl e2"
      "c_body f = c_body p" "find_fallback G n = Inr (c_url f)" "truthy (c_url f)"
  using assms(1)
proof (cases rule: run_node_cases)
  case (no_attr k)
  with assms(2) show ?thesis by (intro that(1)) simp
next
  case (ok nd out)
  show ?thesis
    by (rule that(2) [of out "primary_call post nd n s1"])
       (use assms(2) ok in \<open>simp_all add: view_def AList.update_conv'\<close>)
next
  case (abort nd e ex)
  show ?thesis
    by (rule that(3) [of e "primary_call post nd n s1" ex])
       (use assms(2) abort in \<open>simp_all add: view_def AList.update_conv'\<close>)
next
  case (recovered nd e fb out)
  show ?thesis
    by (rule that(4) [of out e "primary_call post nd n s1" "fallback_call post nd n fb e s1"])
       (use assms(2) recovered in \<open>simp_all add: view_def AList.update_conv'\<close>)
next
  case (failed nd e fb e2)
  show ?thesis
    by (rule that(5) [of e e2 "primary_call post nd n s1" "fallback_call post nd n fb e s1"])
       (use assms(2) failed in \<open>simp_all add: view_def AList.update_conv'\<close>)
qed

lemma view_results: "view n s = (r, e, cs) \<Longrightarrow> map_of (results s) n = r"
  and view_errors: "view n s = (r, e, cs) \<Longrightarrow> map_of (errors s) n = e"
  and view_calls: "view n s = (r, e, cs) \<Longrightarrow> filter (\<lambda>c. c_node c = n) (calls s) = cs"
  by (simp_all add: view_def)

lemma view_mem: "view n s = (r, e, cs) \<Longrightarrow> c \<in> set (calls s) \<Longrightarrow> c_node c = n \<Longrightarrow> c \<in> set cs"
  by (auto simp: view_def)

lemma run_node_calls:
  "run_node post G n s = (x, s') \<Longrightarrow> \<exists>new. calls s' = calls s @ new \<and> c_node ` set new \<subseteq> {n}"
  by (erule run_node_cases) auto

lemma run_nodes_calls:
  "run_nodes post G ns s = (x, s') \<Longrightarrow>
     \<exists>new. calls s' = calls s @ new \<and> c_node ` set new \<subseteq> set ns"
proof (induction ns arbitrary: s)
  case Nil
  then show ?case by simp
next
  case (Cons n ns)
  obtain xn sn where step: "run_node post G n s = (xn, sn)" by (cases "run_node post G n s")
  from run_node_calls [OF step] obtain new1 where
    n1: "calls sn = calls s @ new1" "c_node ` set new1 \<subseteq> {n}" by blast
  show ?case
  proof (cases xn)
    case None
    with Cons.prems step have "run_nodes post G ns sn = (x, s')" by simp
    from Cons.IH [OF this] obtain new2 where
      n2: "calls s' = calls sn @ new2" "c_node ` set new2 \<subseteq> set ns" by blast
    from n1 n2 have "calls s' = calls s @ (new1 @ new2)" "c_node ` set (new1 @ new2) \<subseteq> set (n # ns)"
      by auto
    then show ?thesis by blast
  next
    case (Some e)
    with Cons.prems step have "s' = sn" by simp
    with n1 have "calls s' = calls s @ new1" "c_node ` set new1 \<subseteq> set (n # ns)" by auto
    then show ?thesis by blast
  qed
qed

lemma run_nodes_append:
  "run_nodes post G (as @ bs) s =
     (case run_nodes post G as s of
        (None, s1) \<Rightarrow> run_nodes post G bs s1
      | (Some e, s1) \<Rightarrow> (Some e, s1))"
  by (induction as arbitrary: s) (auto split: prod.splits option.splits)

lemma run_nodes_before:
  assumes r: "run_nodes post G (pre @ rest) s = (x, s')" and "calls s = []"
    and i: "i < length (calls s')" "c_node (calls s' ! i) \<notin> set pre"
    and j: "j < length (calls s')" "c_node (calls s' ! j) \<notin> set rest"
  shows "j < i"
proof -
  obtain y1 s1 where p: "run_nodes post G pre s = (y1, s1)" by (cases "run_nodes post G pre s")
  from run_nodes_calls [OF p] assms(2) have c1: "c_node ` set (calls s1) \<subseteq> set pre" by auto
  have "\<exists>new. calls s' = calls s1 @ new \<and> c_node ` set new \<subseteq> set rest"
  proof (cases y1)
    case None
    with r p have "run_nodes post G rest s1 = (x, s')" by (simp add: run_nodes_append)
    then show ?thesis by (rule run_nodes_calls)
  next
    case (Some e)
    with r p have "s' = s1" by (simp add: run_nodes_append)
    then show ?thesis by simp
  qed
  then obtain new where n: "calls s' = calls s1 @ new" "c_node ` set new \<subseteq> set rest" by blast
  have "\<not> i < length (calls s1)"
  proof
    assume "i < length (calls s1)"
    then have "calls s' ! i \<in> set (calls s1)" by (simp add: n(1) nth_append)
    with c1 i(2) show False by auto
  qed
  moreover have "j < length (calls s1)"
  proof (rule ccontr)
    assume a: "\<not> j < length (calls s1)"
    with j(1) have "calls s' ! j = new ! (j - length (calls s1))" "j - length (calls s1) < length new"
      by (simp_all add: n(1) nth_append)
    then have "calls s' ! j \<in> set new" by (metis nth_mem)
    with n(2) j(2) show False by auto
  qed
  ultimately show ?thesis by simp
qed

section \<open>Invalid graphs, and the nodes' own fallback\<close>

lemma topo_pred_closed: "topo E D vs \<Longrightarrow> pred_closed E D \<Longrightarrow> pred_closed E (D \<union> set vs)"
proof (induction vs arbitrary: D)
  case Nil
  then show ?case by simp
next
  case (Cons v vs)
  from Cons.prems have "pred_closed E (insert v D)"
    by (auto simp: pred_closed_def)
  moreover from Cons.prems have "topo E (insert v D) vs" by simp
  ultimately have "pred_closed E (insert v D \<union> set vs)" by (rule Cons.IH [rotated])
  then show ?case by simp
qed

lemma pred_closed_rtrancl:
  "(u, v) \<in> (set E)\<^sup>* \<Longrightarrow> pred_closed E S \<Longrightarrow> v \<in> S \<Longrightarrow> u \<in> S"
  by (induction rule: converse_rtrancl_induct) (auto simp: pred_closed_def)

lemma topo_acyclic:
  assumes "topo E {} order" and "distinct order" and "v \<in> set order"
  shows "(v, v) \<notin> (set E)\<^sup>+"
proof
  assume "(v, v) \<in> (set E)\<^sup>+"
  then obtain w where w: "(v, w) \<in> (set E)\<^sup>*" "(w, v) \<in> set E" by (auto dest: tranclD2)
  from assms(3) obtain pre post where o: "order = pre @ v # post" by (auto dest: split_list)
  with assms(2) have nv: "v \<notin> set pre" by simp
  from assms(1) o have t: "topo E {} pre" "topo E (set pre) (v # post)"
    by (simp_all add: topo_append)
  from topo_pred_closed [OF t(1)] have c: "pred_closed E (set pre)"
    by (simp add: pred_closed_def)
  from t(2) w(2) have "w \<in> set pre" by simp
  from pred_closed_rtrancl [OF w(1) c this] nv show False by simp
qed

lemma run_nodes_attrs:
  "run_nodes post G ns s = (None, s') \<Longrightarrow> n \<in> set ns \<Longrightarrow>
     \<exists>nd. map_of (node_attr G) n = Some (Some nd)"
proof (induction ns arbitrary: s)
  case Nil
  then show ?case by simp
next
  case (Cons m ns)
  obtain xm sm where step: "run_node post G m s = (xm, sm)" by (cases "run_node post G m s")
  with Cons.prems(1) have xm: "xm = None" and rest: "run_nodes post G ns sm = (None, s')"
    by (auto split: option.splits)
  show ?case
  proof (cases "n = m")
    case True
    from step xm show ?thesis unfolding True by (cases rule: run_node_cases) auto
  next
    case False
    with Cons.prems(2) have "n \<in> set ns" by simp
    from Cons.IH [OF rest this] show ?thesis .
  qed
qed

lemma touch_node_attr:
  "map_of (node_attr (touch_node n G)) x =
     (if x = n \<and> n \<notin> set (keys (node_attr G)) then Some None else map_of (node_attr G) x)"
proof (cases "n \<in> set (keys (node_attr G))")
  case True
  then show ?thesis by (simp add: touch_node_def)
next
  case False
  then have "map_of (node_attr G) n = None" by (simp add: keys_def map_of_eq_None_iff)
  with False show ?thesis
    by (auto simp: touch_node_def map_add_def split: option.splits)
qed

lemma add_edge_attr:
  "map_of (node_attr (add_edge u v fb G)) x = map_of (node_attr G) x \<or>
   map_of (node_attr (add_edge u v fb G)) x = Some None"
  by (simp add: add_edge_def Let_def touch_node_attr)

lemma fold_add_edge_attr:
  "map_of (node_attr G) x = None \<or> map_of (node_attr G) x = Some None \<Longrightarrow>
     map_of (node_attr (fold (\<lambda>e. add_edge (edge_from e) (edge_to e) (edge_get_fallback e)) es G)) x = None \<or>
     map_of (node_attr (fold (\<lambda>e. add_edge (edge_from e) (edge_to e) (edge_get_fallback e)) es G)) x = Some None"
proof (induction es arbitrary: G)
  case Nil
  then show ?case by simp
next
  case (Cons a es)
  from Cons.prems add_edge_attr [of "edge_from a" "edge_to a" "edge_get_fallback a" G x]
  have "map_of (node_attr (add_edge (edge_from a) (edge_to a) (edge_get_fallback a) G)) x = None \<or>
        map_of (node_attr (add_edge (edge_from a) (edge_to a) (edge_get_fallback a) G)) x = Some None"
    by auto
  from Cons.IH [OF this] show ?case by simp
qed

lemma build_undeclared:
  assumes "x \<notin> name ` set (nodes g)"
  shows "map_of (node_attr (build g)) x = None \<or> map_of (node_attr (build g)) x = Some None"
proof -
  let ?G1 = "fold (\<lambda>n. add_node (name n) n) (nodes g) DiGraph"
  from fold_add_node [OF wf_DiGraph(1,2), of "nodes g"] assms
  have "x \<notin> set (keys (node_attr ?G1))" by (simp add: wf_DiGraph(3) keys_def)
  then have "map_of (node_attr ?G1) x = None"
    by (simp add: keys_def map_of_eq_None_iff)
  then show ?thesis unfolding build_def by (intro fold_add_edge_attr) simp
qed

lemma build_endpoints:
  assumes "e \<in> set (edges g)"
  shows "edge_from e \<in> set (keys (node_attr (build g)))"
    and "edge_to e \<in> set (keys (node_attr (build g)))"
proof -
  from assms have "(edge_from e, edge_to e) \<in> set (keys (adj (build g)))"
    by (auto simp: build_edges)
  with build_wf [of g] show "edge_from e \<in> set (keys (node_attr (build g)))"
    and "edge_to e \<in> set (keys (node_attr (build g)))"
    unfolding wf_digraph_def by force+
qed

lemma strip_keys [simp]: "keys (node_attr (strip_digraph G)) = keys (node_attr G)"
  by (simp add: strip_digraph_def keys_def case_prod_beta comp_def)

lemma strip_adj [simp]: "adj (strip_digraph G) = adj G"
  by (simp add: strip_digraph_def)

lemma strip_map_of:
  "map_of (node_attr (strip_digraph G)) n =
     map_option (map_option without_own_fallback) (map_of (node_attr G) n)"
  by (simp add: strip_digraph_def map_of_map)

lemma strip_find_fallback [simp]: "find_fallback (strip_digraph G) n = find_fallback G n"
  by (simp add: find_fallback_def in_edges_def split: list.splits)

lemma strip_run_node: "run_node post (strip_digraph G) n s = run_node post G n s"
proof (cases "map_of (node_attr G) n")
  case None
  then show ?thesis by (simp add: run_node_def strip_map_of)
next
  case (Some a)
  show ?thesis
  proof (cases a)
    case None
    with Some show ?thesis by (simp add: run_node_def strip_map_of)
  next
    case (Some nd)
    with \<open>map_of (node_attr G) n = Some a\<close> show ?thesis
      unfolding run_node_def strip_find_fallback strip_map_of
      by (simp add: without_own_fallback_def)
  qed
qed

lemma strip_run_nodes: "run_nodes post (strip_digraph G) ns s = run_nodes post G ns s"
  by (induction ns arbitrary: s) (simp_all add: strip_run_node split: prod.splits option.splits)

lemma strip_neighbors [simp]: "neighbors (strip_digraph G) n = neighbors G n"
  by (simp add: neighbors_def)

lemma strip_in_degree [simp]: "in_degree (strip_digraph G) v = in_degree G v"
  by (simp add: in_degree_def)

lemma strip_relax_nodes: "relax_nodes (strip_digraph G) st ns = relax_nodes G st ns"
  by (induction ns arbitrary: st) (simp_all split: option.splits)

lemma strip_generations: "generations (strip_digraph G) m z = generations G m z"
proof (induction G m z rule: generations.induct)
  case (1 G m z)
  show ?case
  proof (cases "z = []")
    case True
    then show ?thesis by (simp add: generations_Nil)
  next
    case False
    show ?thesis
    proof (cases "relax_nodes G (m, []) z")
      case None
      with False show ?thesis
        by (simp add: generations_None strip_relax_nodes)
    next
      case (Some st)
      obtain m' z' where st: "st = (m', z')" by (cases st)
      from "1.IH" [OF False Some [unfolded st] refl]
      have "generations (strip_digraph G) m' z' = generations G m' z'" .
      with False Some st show ?thesis
        using generations_Some [of z G m m' z']
          generations_Some [of z "strip_digraph G" m m' z']
        by (simp add: strip_relax_nodes)
    qed
  qed
qed

lemma strip_topological_sort: "topological_sort (strip_digraph G) = topological_sort G"
  by (simp add: topological_sort_def topological_generations_def strip_generations)

lemma update_map_snd:
  "map (\<lambda>(k, a). (k, f a)) (AList.update n v al) = AList.update n (f v) (map (\<lambda>(k, a). (k, f a)) al)"
  by (induction al) auto

lemma strip_add_node:
  "strip_digraph (add_node n a G) = add_node n (without_own_fallback a) (strip_digraph G)"
proof (cases "map_of (node_attr G) n")
  case None
  then show ?thesis
    by (simp add: add_node_def strip_map_of) (simp add: strip_digraph_def update_map_snd)
next
  case (Some o1)
  show ?thesis
  proof (cases o1)
    case None
    with Some show ?thesis
      by (simp add: add_node_def strip_map_of) (simp add: strip_digraph_def update_map_snd)
  next
    case (Some old)
    with \<open>map_of (node_attr G) n = Some o1\<close> show ?thesis
      by (simp add: add_node_def strip_map_of)
         (simp add: strip_digraph_def update_map_snd without_own_fallback_def)
  qed
qed

lemma strip_touch_node: "strip_digraph (touch_node n G) = touch_node n (strip_digraph G)"
  by (simp add: touch_node_def) (simp add: strip_digraph_def)

lemma strip_add_edge: "strip_digraph (add_edge u v fb G) = add_edge u v fb (strip_digraph G)"
  by (simp add: add_edge_def Let_def strip_touch_node [symmetric]) (simp add: strip_digraph_def)

lemma strip_fold_add_node:
  "strip_digraph (fold (\<lambda>n. add_node (name n) n) ns G) =
     fold (\<lambda>n. add_node (name n) n) (map without_own_fallback ns) (strip_digraph G)"
proof (induction ns arbitrary: G)
  case Nil
  then show ?case by simp
next
  case (Cons a ns)
  have "name (without_own_fallback a) = name a" by (simp add: without_own_fallback_def)
  with Cons.IH [of "add_node (name a) a G"] show ?case by (simp add: strip_add_node)
qed

lemma strip_fold_add_edge:
  "strip_digraph (fold (\<lambda>e. add_edge (edge_from e) (edge_to e) (edge_get_fallback e)) es G) =
     fold (\<lambda>e. add_edge (edge_from e) (edge_to e) (edge_get_fallback e)) es (strip_digraph G)"
  by (induction es arbitrary: G) (simp_all add: strip_add_edge)

lemma strip_build:
  "strip_digraph (build g) = build (g\<lparr>nodes := map without_own_fallback (nodes g)\<rparr>)"
  by (simp add: build_def strip_fold_add_edge strip_fold_add_node)
     (simp add: strip_digraph_def DiGraph_def)

lemma execute_strip:
  "execute post t0 g pl = execute post t0 (g\<lparr>nodes := map without_own_fallback (nodes g)\<rparr>) pl"
proof -
  have "execute post t0 (g\<lparr>nodes := map without_own_fallback (nodes g)\<rparr>) pl =
        (let G = strip_digraph (build g);
             (order, ending) = topological_sort G
         in case run_nodes post G order (init_state t0 pl) of
              (Some x, s) \<Rightarrow> (Some x, s)
            | (None, s) \<Rightarrow> (ending, s))"
    by (simp add: execute_def strip_build)
  also have "\<dots> = execute post t0 g pl"
    by (simp add: execute_def Let_def strip_topological_sort strip_run_nodes)
  finally show ?thesis by simp
qed

section \<open>The example runs\<close>

lemma ex_recovered_run:
  "execute (ex_post True) 0 ex_graph [] =
     (None,
      \<lparr>payload = [],
       results = [(''A'', JObj [(''v'', JNum 1)]),
                  (''fallback'', JObj [(''x'', JObj [(''v'', JNum 1)])])],
       errors = [(''fallback'', ''boom'')],
       calls = [ex_call_A, ex_call_primary,
                ex_call_fallback (Inr (JObj [(''x'', JObj [(''v'', JNum 1)])]))],
       clock = 3\<rparr>)"
  by code_simp

lemma ex_failed_run:
  "execute (ex_post False) 0 ex_graph [] =
     (None,
      \<lparr>payload = [],
       results = [(''A'', JObj [(''v'', JNum 1)])],
       errors = [(''fallback'', ''boom; fallback failed: down'')],
       calls = [ex_call_A, ex_call_primary, ex_call_fallback (Inl ''down'')],
       clock = 3\<rparr>)"
  by code_simp

lemma alone_run:
  "execute (ex_post True) 0 alone_graph [] =
     (Some (HTTPException 502 ''A failed and no fallback available''),
      \<lparr>payload = [], results = [], errors = [(''A'', ''boom'')],
       calls = [ex_call_failing_A], clock = 1\<rparr>)"
  by code_simp

lemma siblings_run:
  "execute (ex_post True) 0 siblings_graph [] =
     (Some (HTTPException 502 ''A failed and no fallback available''),
      \<lparr>payload = [], results = [], errors = [(''A'', ''boom'')],
       calls = [ex_call_failing_A], clock = 1\<rparr>)"
  by code_simp

lemma cyclic_run:
  "execute (ex_post True) 0 cyclic_graph [] =
     (Some NetworkXUnfeasible,
      \<lparr>payload = [], results = [(''A'', JObj [(''v'', JNum 1)])], errors = [],
       calls = [ex_call_A], clock = 1\<rparr>)"
  by code_simp

lemma dangling_run:
  "execute (ex_post True) 0 dangling_graph [] =
     (Some (KeyError ''endpoint''),
      \<lparr>payload = [], results = [(''A'', JObj [(''v'', JNum 1)])], errors = [],
       calls = [ex_call_A], clock = 1\<rparr>)"
  by code_simp

lemma duplicate_run:
  "execute (ex_post True) 0 duplicate_graph [] =
     (None,
      \<lparr>payload = [], results = [(''A'', JObj [(''v'', JNum 1)])], errors = [],
       calls = [ex_call_A], clock = 1\<rparr>)"
  by code_simp

lemma no_inbound_edge_no_fallback:
  assumes "\<forall>e\<in>set (edges g). edge_to e \<noteq> n"
  shows "find_fallback (build g) n = Inr JNull"
proof -
  have "\<forall>a\<in>set (adj (build g)). snd (fst a) \<noteq> n"
  proof
    fix a assume a: "a \<in> set (adj (build g))"
    then have "fst a \<in> set (keys (adj (build g)))" by (simp add: keys_def)
    then obtain d where "d \<in> set (edges g)" "fst a = (edge_from d, edge_to d)"
      unfolding build_edges by blast
    with assms show "snd (fst a) \<noteq> n" by simp
  qed
  then have "filter (\<lambda>e. snd (fst e) = n) (adj (build g)) = []"
    by (simp add: filter_empty_conv)
  then show ?thesis by (simp add: find_fallback_def in_edges_def)
qed

text \<open>
  With a fallback that is a plain string on the edge into \<open>B\<close>, the lookup
  \<open>G.edges[in_edges[0]][name]\<close> finds no key \<open>B\<close> in the edge data
  \<open>{"fallback": "http://fb"}\<close>: the failure of \<open>B\<close> ends the run with \<open>KeyError\<close>, and
  the fallback is not requested.
\<close>

lemma string_fallback_run:
  "execute (ex_post True) 0 string_fallback_graph [] =
     (Some (KeyError ''B''),
      \<lparr>payload = [], results = [(''A'', JObj [(''v'', JNum 1)])], errors = [(''B'', ''boom'')],
       calls = [ex_call_A, ex_call_failing_B], clock = 2\<rparr>)"
  by code_simp

section \<open>The claims\<close>

text \<open>
  C1. A node's endpoint is requested only after every predecessor has a recorded outcome:
  whenever a request for the target of an edge is issued, the source of the edge already
  has an entry in \<open>results\<close> or \<open>errors\<close> (it is in \<open>c_done\<close> of the request), a request
  for the source comes earlier in the log, and every request for the source, primary or
  fallback, comes earlier. This holds for every graph, since a node on or behind a cycle
  is never yielded by the topological sort.
\<close>

theorem predecessors_called_first:
  assumes "execute post t0 g pl = (x, s)" and "i < length (calls s)"
    and "e \<in> set (edges g)" and "edge_to e = c_node (calls s ! i)"
  shows "edge_from e \<in> set (c_done (calls s ! i)) \<and>
         (\<exists>j<i. c_node (calls s ! j) = edge_from e) \<and>
         (\<forall>j<length (calls s). c_node (calls s ! j) = edge_from e \<longrightarrow> j < i)"
proof -
  let ?E = "keys (adj (build g))"
  from assms(1) obtain order ending y where
    ts: "topological_sort (build g) = (order, ending)"
    and r: "run_nodes post (build g) order (init_state t0 pl) = (y, s)"
    by (rule execute_run)
  note tsc = topological_sort_correct [OF build_wf ts]
  from tsc(2) have "topo ?E (done_nodes (init_state t0 pl)) order" by (simp add: init_good)
  from run_nodes_good [OF init_good(1) this r] have g: "good ?E s" .
  from assms(3,4) have edge: "(edge_from e, c_node (calls s ! i)) \<in> set ?E"
    by (auto simp: build_edges)
  moreover from assms(2) have mem: "calls s ! i \<in> set (calls s)" by simp
  ultimately have a: "edge_from e \<in> set (c_done (calls s ! i))"
    using g unfolding good_def by blast
  from g assms(2) have "set (c_done (calls s ! i)) \<subseteq> c_node ` set (take i (calls s))"
    unfolding good_def by blast
  with a obtain c where c: "c \<in> set (take i (calls s))" "c_node c = edge_from e" by auto
  from c(1) obtain j where "j < length (take i (calls s))" "take i (calls s) ! j = c"
    by (auto simp: in_set_conv_nth)
  with assms(2) have "j < i" "calls s ! j = c" by simp_all
  with c(2) have b: "\<exists>j<i. c_node (calls s ! j) = edge_from e" by blast
  have c0: "calls (init_state t0 pl) = []" by (simp add: init_state_def)
  from run_nodes_calls [OF r] c0 mem have "c_node (calls s ! i) \<in> set order" by auto
  then obtain pre post where o: "order = pre @ c_node (calls s ! i) # post"
    by (auto dest: split_list)
  with tsc(1) have d: "c_node (calls s ! i) \<notin> set pre" by simp
  from tsc(2) o edge have u: "edge_from e \<in> set pre" by (simp add: topo_append)
  with tsc(1) o have u': "edge_from e \<notin> set (c_node (calls s ! i) # post)" by auto
  have "\<forall>j<length (calls s). c_node (calls s ! j) = edge_from e \<longrightarrow> j < i"
  proof (intro allI impI)
    fix j assume "j < length (calls s)" "c_node (calls s ! j) = edge_from e"
    with run_nodes_before [OF r [unfolded o] c0 assms(2) d, of j] u' show "j < i" by simp
  qed
  with a b show ?thesis by blast
qed

theorem predecessors_called_first_witness:
  "1 < length (calls (snd (execute (ex_post True) 0 ex_graph []))) \<and>
   ex_edge \<in> set (edges ex_graph) \<and>
   edge_to ex_edge = c_node (calls (snd (execute (ex_post True) 0 ex_graph [])) ! 1) \<and>
   edge_from ex_edge \<in> set (c_done (calls (snd (execute (ex_post True) 0 ex_graph [])) ! 1)) \<and>
   (\<exists>j<1. c_node (calls (snd (execute (ex_post True) 0 ex_graph [])) ! j) = edge_from ex_edge)"
proof -
  let ?s = "snd (execute (ex_post True) 0 ex_graph [])"
  have h1: "1 < length (calls ?s)" by (simp add: ex_recovered_run)
  have h2: "ex_edge \<in> set (edges ex_graph)" by (simp add: ex_graph_def)
  have h3: "edge_to ex_edge = c_node (calls ?s ! 1)"
    by (simp add: ex_recovered_run ex_edge_def ex_call_primary_def)
  from predecessors_called_first [OF ex_recovered_run, of 1 ex_edge] h1 h2 h3
  show ?thesis by (simp add: ex_recovered_run)
qed

text \<open>
  C2, as the code has it. The claim says that independent branches still execute when a
  node fails without a fallback. They do not: in \<open>siblings_graph\<close>, \<open>A\<close> and \<open>B\<close> have no
  edge between them and the endpoint of \<open>B\<close> would answer, but after the failure of \<open>A\<close>
  the run raises \<open>HTTPException(502)\<close>; \<open>B\<close> is never requested and no report is returned.
\<close>

theorem sibling_branch_not_executed:
  "execute (ex_post True) 0 siblings_graph [] =
     (Some (HTTPException 502 ''A failed and no fallback available''),
      \<lparr>payload = [], results = [], errors = [(''A'', ''boom'')],
       calls = [ex_call_failing_A], clock = 1\<rparr>) \<and>
   edges siblings_graph = [] \<and>
   ex_post True 1 (JStr ''http://a'') [] = Inr (JObj [(''v'', JNum 1)])"
  by (intro conjI) (rule siblings_run, simp add: siblings_graph_def, simp add: ex_post_def)

text \<open>
  C2, amended. When the primary request of a node fails and no fallback request is made
  for it, the run has recorded the failure reason in \<open>errors\<close>, has left \<open>results\<close> without
  an entry for the node, and ends by raising an exception: no report is returned, and
  that request is the last one of the run, so no later node, dependent or not, is
  requested. For a node without an inbound edge the exception is
  \<open>HTTPException(502, "<name> failed and no fallback available")\<close>.
\<close>

theorem failure_without_fallback_aborts:
  assumes "execute post t0 g pl = (x, s)"
    and "c \<in> set (calls s)" and "\<not> c_fallback c" and "c_resp c = Inl e"
    and "\<forall>c'\<in>set (calls s). c_node c' = c_node c \<longrightarrow> \<not> c_fallback c'"
  shows "x \<noteq> None \<and>
         last (calls s) = c \<and>
         map_of (errors s) (c_node c) = Some e \<and>
         map_of (results s) (c_node c) = None \<and>
         ((\<forall>d\<in>set (edges g). edge_to d \<noteq> c_node c) \<longrightarrow>
            x = Some (HTTPException 502 (c_node c @ '' failed and no fallback available'')))"
  using assms(1)
proof (cases rule: execute_node_cases [where n = "c_node c"])
  case untouched
  from view_mem [OF untouched assms(2) refl] show ?thesis by simp
next
  case (ran s1 x2 s2)
  from ran(2,1) show ?thesis
  proof (cases rule: run_node_view)
    case no_attr
    with ran(3) have "view (c_node c) s = (None, None, [])" by simp
    from view_mem [OF this assms(2) refl] show ?thesis by simp
  next
    case (ok p out)
    with ran(3) have v: "view (c_node c) s = (Some out, None, [p])" by simp
    from view_mem [OF v assms(2) refl] ok(3) assms(4) show ?thesis by simp
  next
    case (abort p e' ex)
    with ran(3) have v: "view (c_node c) s = (None, Some e', [p])" by simp
    from view_mem [OF v assms(2) refl] have c: "c = p" by simp
    with abort(3) assms(4) have e: "e' = e" by simp
    from ran(4) abort(4) have xs: "x = Some ex" "s = s2" by simp_all
    have "(\<forall>d\<in>set (edges g). edge_to d \<noteq> c_node c) \<longrightarrow>
            x = Some (HTTPException 502 (c_node c @ '' failed and no fallback available''))"
    proof
      assume "\<forall>d\<in>set (edges g). edge_to d \<noteq> c_node c"
      from no_inbound_edge_no_fallback [OF this] abort(6)
      have "ex = HTTPException 502 (c_node c @ '' failed and no fallback available'')" by auto
      with xs(1) show "x = Some (HTTPException 502 (c_node c @ '' failed and no fallback available''))"
        by simp
    qed
    moreover have "x \<noteq> None" using xs(1) by simp
    moreover have "last (calls s) = c" using xs(2) abort(5) c by simp
    moreover have "map_of (errors s) (c_node c) = Some e" using view_errors [OF v] e by simp
    moreover have "map_of (results s) (c_node c) = None" using view_results [OF v] by simp
    ultimately show ?thesis by blast
  next
    case (recovered p f e' out)
    with ran(3) have v: "view (c_node c) s = (Some out, Some e', [p, f])" by simp
    from view_calls [OF v] have "f \<in> set (filter (\<lambda>c'. c_node c' = c_node c) (calls s))"
      by simp
    then have "f \<in> set (calls s)" "c_node f = c_node c" by simp_all
    with assms(5) recovered(4) show ?thesis by blast
  next
    case (failed p f e' e2)
    with ran(3) have v: "view (c_node c) s =
        (None, Some (e' @ ''; fallback failed: '' @ e2), [p, f])" by simp
    from view_calls [OF v] have "f \<in> set (filter (\<lambda>c'. c_node c' = c_node c) (calls s))"
      by simp
    then have "f \<in> set (calls s)" "c_node f = c_node c" by simp_all
    with assms(5) failed(4) show ?thesis by blast
  qed
qed

theorem failure_without_fallback_aborts_witness:
  "fst (execute (ex_post True) 0 siblings_graph []) =
     Some (HTTPException 502 (c_node ex_call_failing_A @ '' failed and no fallback available'')) \<and>
   last (calls (snd (execute (ex_post True) 0 siblings_graph []))) = ex_call_failing_A \<and>
   map_of (errors (snd (execute (ex_post True) 0 siblings_graph []))) (c_node ex_call_failing_A) =
     Some ''boom'' \<and>
   map_of (results (snd (execute (ex_post True) 0 siblings_graph []))) (c_node ex_call_failing_A) =
     None \<and>
   fst (execute (ex_post True) 0 string_fallback_graph []) \<noteq> None \<and>
   last (calls (snd (execute (ex_post True) 0 string_fallback_graph []))) = ex_call_failing_B \<and>
   map_of (errors (snd (execute (ex_post True) 0 string_fallback_graph []))) (c_node ex_call_failing_B) =
     Some ''boom'' \<and>
   map_of (results (snd (execute (ex_post True) 0 string_fallback_graph []))) (c_node ex_call_failing_B) =
     None"
proof -
  let ?sa = "snd (execute (ex_post True) 0 siblings_graph [])"
  let ?sb = "snd (execute (ex_post True) 0 string_fallback_graph [])"
  have ra: "execute (ex_post True) 0 siblings_graph [] =
      (fst (execute (ex_post True) 0 siblings_graph []), ?sa)" by simp
  have rb: "execute (ex_post True) 0 string_fallback_graph [] =
      (fst (execute (ex_post True) 0 string_fallback_graph []), ?sb)" by simp
  have ca: "calls ?sa = [ex_call_failing_A]" by (simp add: siblings_run)
  have cb: "calls ?sb = [ex_call_A, ex_call_failing_B]" by (simp add: string_fallback_run)
  have a: "ex_call_failing_A \<in> set (calls ?sa)"
    "\<not> c_fallback ex_call_failing_A" "c_resp ex_call_failing_A = Inl ''boom''"
    "\<forall>c'\<in>set (calls ?sa). c_node c' = c_node ex_call_failing_A \<longrightarrow> \<not> c_fallback c'"
    unfolding ca by (simp_all add: ex_call_failing_A_def)
  have na: "\<forall>d\<in>set (edges siblings_graph). edge_to d \<noteq> c_node ex_call_failing_A"
    by (simp add: siblings_graph_def)
  have b: "ex_call_failing_B \<in> set (calls ?sb)"
    "\<not> c_fallback ex_call_failing_B" "c_resp ex_call_failing_B = Inl ''boom''"
    "\<forall>c'\<in>set (calls ?sb). c_node c' = c_node ex_call_failing_B \<longrightarrow> \<not> c_fallback c'"
    unfolding cb by (simp_all add: ex_call_failing_B_def ex_call_A_def)
  note ta = failure_without_fallback_aborts [OF ra a]
  note tb = failure_without_fallback_aborts [OF rb b]
  from ta na tb show ?thesis by blast
qed

text \<open>
  C3, as the code has it. The claim says that a fallback present on the node itself is
  always found and attempted. The node \<open>A\<close> of \<open>alone_graph\<close> carries the fallback
  \<open>http://fb\<close>, which would answer, and its primary request fails: the run raises
  \<open>HTTPException(502, "A failed and no fallback available")\<close> after that one request.
\<close>

theorem own_fallback_not_attempted:
  "node_fallback (hd (nodes alone_graph)) = Some (JStr ''http://fb'') \<and>
   ex_post True 1 (JStr ''http://fb'') [] = Inr (JObj []) \<and>
   execute (ex_post True) 0 alone_graph [] =
     (Some (HTTPException 502 ''A failed and no fallback available''),
      \<lparr>payload = [], results = [], errors = [(''A'', ''boom'')],
       calls = [ex_call_failing_A], clock = 1\<rparr>)"
  by (intro conjI) (simp add: alone_graph_def, simp add: ex_post_def, rule alone_run)

text \<open>
  C3, amended. The node's own fallback field is never consulted: the fallback of a node
  whose primary request fails is looked up on the node's inbound edges only, so two graph
  descriptions that differ in nothing but the nodes' own fallback fields run alike,
  with the same outcome, the same report and the same requests.
\<close>

theorem own_fallback_ignored:
  assumes "map without_own_fallback (nodes g) = map without_own_fallback (nodes g')"
    and "edges g = edges g'"
  shows "execute post t0 g pl = execute post t0 g' pl"
proof -
  from assms have "g\<lparr>nodes := map without_own_fallback (nodes g)\<rparr> =
                   g'\<lparr>nodes := map without_own_fallback (nodes g')\<rparr>"
    by (cases g, cases g') simp
  then show ?thesis using execute_strip [of post t0 g pl] execute_strip [of post t0 g' pl]
    by simp
qed

theorem own_fallback_ignored_witness:
  "map without_own_fallback (nodes alone_graph) = map without_own_fallback (nodes alone_graph_bare) \<and>
   edges alone_graph = edges alone_graph_bare \<and>
   execute (ex_post True) 0 alone_graph [] = execute (ex_post True) 0 alone_graph_bare []"
proof -
  have h: "map without_own_fallback (nodes alone_graph) =
           map without_own_fallback (nodes alone_graph_bare)"
    "edges alone_graph = edges alone_graph_bare"
    by (simp_all add: alone_graph_def alone_graph_bare_def without_own_fallback_def)
  from own_fallback_ignored [OF h] h show ?thesis by blast
qed

text \<open>
  C4, as the code has it. The claim says that a graph with a cycle, a duplicate node name
  or an edge to an unknown node is rejected before any request is made. In \<open>cyclic_graph\<close>
  (\<open>B\<close> and \<open>C\<close> on a cycle, \<open>A\<close> apart) the node \<open>A\<close> is requested before
  \<open>NetworkXUnfeasible\<close> is raised; in \<open>dangling_graph\<close> (an edge from \<open>A\<close> to an undeclared
  \<open>X\<close>) the node \<open>A\<close> is requested before the \<open>KeyError\<close> on the endpoint of \<open>X\<close>; and
  \<open>duplicate_graph\<close> (two nodes named \<open>A\<close>) is not rejected at all: the run returns
  normally, with the endpoint of the second declaration requested.
\<close>

theorem invalid_graphs_reach_services:
  "execute (ex_post True) 0 cyclic_graph [] =
     (Some NetworkXUnfeasible,
      \<lparr>payload = [], results = [(''A'', JObj [(''v'', JNum 1)])], errors = [],
       calls = [ex_call_A], clock = 1\<rparr>) \<and>
   execute (ex_post True) 0 dangling_graph [] =
     (Some (KeyError ''endpoint''),
      \<lparr>payload = [], results = [(''A'', JObj [(''v'', JNum 1)])], errors = [],
       calls = [ex_call_A], clock = 1\<rparr>) \<and>
   execute (ex_post True) 0 duplicate_graph [] =
     (None,
      \<lparr>payload = [], results = [(''A'', JObj [(''v'', JNum 1)])], errors = [],
       calls = [ex_call_A], clock = 1\<rparr>)"
  by (intro conjI) (rule cyclic_run, rule dangling_run, rule duplicate_run)

text \<open>
  C4, amended. A graph that contains a cycle or an edge referencing an undeclared node
  never yields a report: the run ends with an exception. (It is raised when the
  iteration gets there, so nodes ordered before that point may have been requested;
  duplicate node names are not detected.)
\<close>

theorem invalid_graph_never_returns:
  assumes "(\<exists>v. (v, v) \<in> (edge_rel g)\<^sup>+) \<or>
           (\<exists>e\<in>set (edges g). edge_from e \<notin> name ` set (nodes g) \<or>
                               edge_to e \<notin> name ` set (nodes g))"
  shows "fst (execute post t0 g pl) \<noteq> None"
proof
  assume "fst (execute post t0 g pl) = None"
  then have ex: "execute post t0 g pl = (None, snd (execute post t0 g pl))"
    by (metis prod.collapse)
  let ?G = "build g"
  from ex obtain order ending y where
    ts: "topological_sort ?G = (order, ending)"
    and r: "run_nodes post ?G order (init_state t0 pl) = (y, snd (execute post t0 g pl))"
    and x: "None = (case y of None \<Rightarrow> ending | Some e \<Rightarrow> Some e)"
    by (rule execute_run)
  from x have y: "y = None" and e: "ending = None" by (auto split: option.splits)
  note tsc = topological_sort_correct [OF build_wf ts]
  from tsc(3) [OF e] have all: "set (keys (node_attr ?G)) \<subseteq> set order" .
  have E: "set (keys (adj ?G)) = edge_rel g" by (simp add: build_edges edge_rel_def)
  from assms consider
    (cycle) v where "(v, v) \<in> (edge_rel g)\<^sup>+"
  | (dangling) e where "e \<in> set (edges g)"
      "edge_from e \<notin> name ` set (nodes g) \<or> edge_to e \<notin> name ` set (nodes g)"
    by blast
  then show False
  proof cases
    case cycle
    then have c: "(v, v) \<in> (edge_rel g)\<^sup>+" .
    then obtain w where "(w, v) \<in> edge_rel g" by (auto dest: tranclD2)
    then obtain e where "e \<in> set (edges g)" "edge_to e = v" by (auto simp: edge_rel_def)
    with build_endpoints(2) [of e g] all have "v \<in> set order" by auto
    from topo_acyclic [OF tsc(2) tsc(1) this] c show False by (simp add: E)
  next
    case dangling
    then have e: "e \<in> set (edges g)"
      and u: "edge_from e \<notin> name ` set (nodes g) \<or> edge_to e \<notin> name ` set (nodes g)"
      by simp_all
    then obtain x where x: "x \<notin> name ` set (nodes g)" "x \<in> set (keys (node_attr ?G))"
      using build_endpoints [OF e] by blast
    from x(2) all have "x \<in> set order" by blast
    from run_nodes_attrs [OF r [unfolded y] this] build_undeclared [OF x(1)]
    show False by auto
  qed
qed

theorem invalid_graph_never_returns_witness:
  "((\<exists>v. (v, v) \<in> (edge_rel cyclic_graph)\<^sup>+) \<or>
    (\<exists>e\<in>set (edges cyclic_graph). edge_from e \<notin> name ` set (nodes cyclic_graph) \<or>
                                      edge_to e \<notin> name ` set (nodes cyclic_graph))) \<and>
   fst (execute (ex_post True) 0 cyclic_graph []) \<noteq> None"
proof -
  have "(''B'', ''C'') \<in> edge_rel cyclic_graph" "(''C'', ''B'') \<in> edge_rel cyclic_graph"
    by (simp_all add: edge_rel_def cyclic_graph_def)
  then have "(''B'', ''B'') \<in> (edge_rel cyclic_graph)\<^sup>+" by (rule trancl.intros(2) [OF r_into_trancl])
  then have h: "(\<exists>v. (v, v) \<in> (edge_rel cyclic_graph)\<^sup>+) \<or>
    (\<exists>e\<in>set (edges cyclic_graph). edge_from e \<notin> name ` set (nodes cyclic_graph) \<or>
                                      edge_to e \<notin> name ` set (nodes cyclic_graph))"
    by blast
  from invalid_graph_never_returns [OF h] h show ?thesis by blast
qed

text \<open>
  C5, as the code has it. The claim says that the entry of \<open>errors\<close> is annotated as
  recovered when the fallback succeeds. It is not: in \<open>ex_graph\<close> the primary request of
  \<open>fallback\<close> fails with \<open>boom\<close>, its fallback request succeeds and gives the result, and
  the entry of \<open>errors\<close> is \<open>boom\<close> and nothing more.
\<close>

theorem recovered_error_not_annotated:
  "fst (execute (ex_post True) 0 ex_graph []) = None \<and>
   ex_post True 1 (JStr ''http://b'') [(''x'', JObj [(''v'', JNum 1)])] = Inl ''boom'' \<and>
   map_of (results (snd (execute (ex_post True) 0 ex_graph []))) ''fallback'' =
     Some (JObj [(''x'', JObj [(''v'', JNum 1)])]) \<and>
   map_of (errors (snd (execute (ex_post True) 0 ex_graph []))) ''fallback'' = Some ''boom''"
  by (simp add: ex_recovered_run ex_post_def)

text \<open>
  C5, amended. When the primary request of a node fails and its fallback request
  succeeds, the fallback was sent the same body as the primary, \<open>results\<close> holds the
  fallback's answer for the node, and \<open>errors\<close> holds the primary failure reason, unchanged.
\<close>

theorem fallback_success_recorded:
  assumes "execute post t0 g pl = (x, s)"
    and "c1 \<in> set (calls s)" and "\<not> c_fallback c1" and "c_resp c1 = Inl e1"
    and "c2 \<in> set (calls s)" and "c_node c2 = c_node c1" and "c_fallback c2"
    and "c_resp c2 = Inr out"
  shows "c_body c2 = c_body c1 \<and>
         map_of (results s) (c_node c1) = Some out \<and>
         map_of (errors s) (c_node c1) = Some e1"
  using assms(1)
proof (cases rule: execute_node_cases [where n = "c_node c1"])
  case untouched
  from view_mem [OF untouched assms(2) refl] show ?thesis by simp
next
  case (ran s1 x2 s2)
  from ran(2,1) show ?thesis
  proof (cases rule: run_node_view)
    case no_attr
    with ran(3) have "view (c_node c1) s = (None, None, [])" by simp
    from view_mem [OF this assms(2) refl] show ?thesis by simp
  next
    case (ok p out')
    with ran(3) have v: "view (c_node c1) s = (Some out', None, [p])" by simp
    from view_mem [OF v assms(5,6)] ok(2) assms(7) show ?thesis by simp
  next
    case (abort p e ex)
    with ran(3) have v: "view (c_node c1) s = (None, Some e, [p])" by simp
    from view_mem [OF v assms(5,6)] abort(2) assms(7) show ?thesis by simp
  next
    case (recovered p f e out')
    with ran(3) have v: "view (c_node c1) s = (Some out', Some e, [p, f])" by simp
    from view_mem [OF v assms(2) refl] recovered(4) assms(3) have c1: "c1 = p" by auto
    from view_mem [OF v assms(5,6)] recovered(2) assms(7) have c2: "c2 = f" by auto
    from c1 c2 recovered(3,5) assms(4,8) have "e = e1" "out' = out" by simp_all
    with c1 c2 recovered(6) view_results [OF v] view_errors [OF v]
    show ?thesis by simp
  next
    case (failed p f e e2)
    with ran(3) have v: "view (c_node c1) s =
        (None, Some (e @ ''; fallback failed: '' @ e2), [p, f])" by simp
    from view_mem [OF v assms(5,6)] failed(2,5) assms(7,8) show ?thesis by auto
  qed
qed

theorem fallback_success_recorded_witness:
  "ex_call_primary \<in> set (calls (snd (execute (ex_post True) 0 ex_graph []))) \<and>
   \<not> c_fallback ex_call_primary \<and> c_resp ex_call_primary = Inl ''boom'' \<and>
   ex_call_fallback (Inr (JObj [(''x'', JObj [(''v'', JNum 1)])]))
     \<in> set (calls (snd (execute (ex_post True) 0 ex_graph []))) \<and>
   c_node (ex_call_fallback (Inr (JObj [(''x'', JObj [(''v'', JNum 1)])]))) =
     c_node ex_call_primary \<and>
   c_fallback (ex_call_fallback (Inr (JObj [(''x'', JObj [(''v'', JNum 1)])]))) \<and>
   c_resp (ex_call_fallback (Inr (JObj [(''x'', JObj [(''v'', JNum 1)])]))) =
     Inr (JObj [(''x'', JObj [(''v'', JNum 1)])]) \<and>
   c_body (ex_call_fallback (Inr (JObj [(''x'', JObj [(''v'', JNum 1)])]))) =
     c_body ex_call_primary \<and>
   map_of (results (snd (execute (ex_post True) 0 ex_graph []))) (c_node ex_call_primary) =
     Some (JObj [(''x'', JObj [(''v'', JNum 1)])]) \<and>
   map_of (errors (snd (execute (ex_post True) 0 ex_graph []))) (c_node ex_call_primary) =
     Some ''boom''"
proof -
  let ?f = "ex_call_fallback (Inr (JObj [(''x'', JObj [(''v'', JNum 1)])]))"
  have h: "ex_call_primary \<in> set (calls (snd (execute (ex_post True) 0 ex_graph [])))"
    "\<not> c_fallback ex_call_primary" "c_resp ex_call_primary = Inl ''boom''"
    "?f \<in> set (calls (snd (execute (ex_post True) 0 ex_graph [])))"
    "c_node ?f = c_node ex_call_primary"
    "c_fallback ?f"
    "c_resp ?f = Inr (JObj [(''x'', JObj [(''v'', JNum 1)])])"
    by (simp_all add: ex_recovered_run ex_call_primary_def ex_call_fallback_def)
  from fallback_success_recorded [OF ex_recovered_run h [unfolded ex_recovered_run snd_conv]] h
  show ?thesis by (simp only: ex_recovered_run snd_conv simp_thms)
qed

text \<open>
  C6. When the primary request of a node fails and its fallback request fails too, these
  two are all the requests made for the node, \<open>results\<close> has no entry for it, and its entry
  in \<open>errors\<close> is the primary failure reason followed by \<open>; fallback failed: \<close> and the
  fallback's failure reason.
\<close>

theorem fallback_failure_recorded:
  assumes "execute post t0 g pl = (x, s)"
    and "c1 \<in> set (calls s)" and "\<not> c_fallback c1" and "c_resp c1 = Inl e1"
    and "c2 \<in> set (calls s)" and "c_node c2 = c_node c1" and "c_fallback c2"
    and "c_resp c2 = Inl e2"
  shows "filter (\<lambda>c. c_node c = c_node c1) (calls s) = [c1, c2] \<and>
         map_of (results s) (c_node c1) = None \<and>
         map_of (errors s) (c_node c1) = Some (e1 @ ''; fallback failed: '' @ e2)"
  using assms(1)
proof (cases rule: execute_node_cases [where n = "c_node c1"])
  case untouched
  from view_mem [OF untouched assms(2) refl] show ?thesis by simp
next
  case (ran s1 x2 s2)
  from ran(2,1) show ?thesis
  proof (cases rule: run_node_view)
    case no_attr
    with ran(3) have "view (c_node c1) s = (None, None, [])" by simp
    from view_mem [OF this assms(2) refl] show ?thesis by simp
  next
    case (ok p out)
    with ran(3) have v: "view (c_node c1) s = (Some out, None, [p])" by simp
    from view_mem [OF v assms(5,6)] ok(2) assms(7) show ?thesis by simp
  next
    case (abort p e ex)
    with ran(3) have v: "view (c_node c1) s = (None, Some e, [p])" by simp
    from view_mem [OF v assms(5,6)] abort(2) assms(7) show ?thesis by simp
  next
    case (recovered p f e out)
    with ran(3) have v: "view (c_node c1) s = (Some out, Some e, [p, f])" by simp
    from view_mem [OF v assms(5,6)] recovered(2,5) assms(7,8) show ?thesis by auto
  next
    case (failed p f e e2')
    with ran(3) have v: "view (c_node c1) s =
        (None, Some (e @ ''; fallback failed: '' @ e2'), [p, f])" by simp
    from view_mem [OF v assms(2) refl] failed(4) assms(3) have c1: "c1 = p" by auto
    from view_mem [OF v assms(5,6)] failed(2) assms(7) have c2: "c2 = f" by auto
    from c1 c2 failed(3,5) assms(4,8) have "e = e1" "e2' = e2" by simp_all
    with v c1 c2 view_results [OF v] view_errors [OF v] view_calls [OF v]
    show ?thesis by simp
  qed
qed

theorem fallback_failure_recorded_witness:
  "ex_call_primary \<in> set (calls (snd (execute (ex_post False) 0 ex_graph []))) \<and>
   \<not> c_fallback ex_call_primary \<and> c_resp ex_call_primary = Inl ''boom'' \<and>
   ex_call_fallback (Inl ''down'') \<in> set (calls (snd (execute (ex_post False) 0 ex_graph []))) \<and>
   c_node (ex_call_fallback (Inl ''down'')) = c_node ex_call_primary \<and>
   c_fallback (ex_call_fallback (Inl ''down'')) \<and>
   c_resp (ex_call_fallback (Inl ''down'')) = Inl ''down'' \<and>
   filter (\<lambda>c. c_node c = c_node ex_call_primary)
     (calls (snd (execute (ex_post False) 0 ex_graph []))) =
     [ex_call_primary, ex_call_fallback (Inl ''down'')] \<and>
   map_of (results (snd (execute (ex_post False) 0 ex_graph []))) (c_node ex_call_primary) = None \<and>
   map_of (errors (snd (execute (ex_post False) 0 ex_graph []))) (c_node ex_call_primary) =
     Some (''boom'' @ ''; fallback failed: '' @ ''down'')"
proof -
  have h: "ex_call_primary \<in> set (calls (snd (execute (ex_post False) 0 ex_graph [])))"
    "\<not> c_fallback ex_call_primary" "c_resp ex_call_primary = Inl ''boom''"
    "ex_call_fallback (Inl ''down'') \<in> set (calls (snd (execute (ex_post False) 0 ex_graph [])))"
    "c_node (ex_call_fallback (Inl ''down'')) = c_node ex_call_primary"
    "c_fallback (ex_call_fallback (Inl ''down''))"
    "c_resp (ex_call_fallback (Inl ''down'')) = Inl ''down''"
    by (simp_all add: ex_failed_run ex_call_primary_def ex_call_fallback_def)
  from fallback_failure_recorded [OF ex_failed_run h [unfolded ex_failed_run snd_conv]] h
  show ?thesis by (simp only: ex_failed_run snd_conv simp_thms)
qed

text \<open>
  C7. For every node and every declared input key \<open>k\<close> with source \<open>v\<close>, the value sent
  under \<open>k\<close> is the recorded result of the node named \<open>v\<close> when there is one, otherwise
  the initial payload's entry under \<open>v\<close>, otherwise null; and the node's endpoint is
  called with that body in every case, whether or not the keys could be resolved.
\<close>

theorem resolved_inputs_sent:
  assumes "map_of (node_attr G) n = Some (Some nd)"
    and "distinct (map fst (inputs nd))"
    and "(k, v) \<in> set (inputs nd)"
  shows "\<exists>c rest. calls (snd (run_node post G n s)) = calls s @ c # rest \<and>
           c_node c = n \<and> \<not> c_fallback c \<and> c_url c = JStr (endpoint nd) \<and>
           map fst (c_body c) = map fst (inputs nd) \<and>
           map_of (c_body c) k =
             Some (case map_of (results s) v of
                     Some r \<Rightarrow> r
                   | None \<Rightarrow> (case map_of (payload s) v of Some p \<Rightarrow> p | None \<Rightarrow> JNull))"
proof -
  let ?val = "\<lambda>v. case map_of (results s) v of
                     Some r \<Rightarrow> r
                   | None \<Rightarrow> (case map_of (payload s) v of Some p \<Rightarrow> p | None \<Rightarrow> JNull)"
  let ?body = "resolve_inputs (results s) (payload s) (inputs nd)"
  have body: "?body = map (\<lambda>(k, v). (k, ?val v)) (inputs nd)"
    by (simp add: resolve_inputs_def dict_get_def)
  have fst_body: "map fst ?body = map fst (inputs nd)"
    by (simp add: body case_prod_beta comp_def)
  from assms(3) have "(k, ?val v) \<in> set ?body"
    unfolding body by force
  with assms(2) fst_body have look: "map_of ?body k = Some (?val v)"
    by (simp add: map_of_is_SomeI)
  obtain x s' where step: "run_node post G n s = (x, s')" by (cases "run_node post G n s")
  from step assms(1) have "\<exists>rest. calls s' = calls s @ primary_call post nd n s # rest"
    by (cases rule: run_node_cases) auto
  then obtain rest where "calls s' = calls s @ primary_call post nd n s # rest" ..
  with step fst_body look show ?thesis
    by (intro exI [of _ "primary_call post nd n s"] exI [of _ rest])
       (simp add: primary_call_def Let_def)
qed

theorem resolved_inputs_sent_witness:
  "\<exists>c rest.
     calls (snd (run_node (\<lambda>t u b. Inr (JObj b))
        \<lparr>node_attr = [(''B'', Some \<lparr>name = ''B'', endpoint = ''http://b'',
                        inputs = [(''x'', ''A''), (''y'', ''q''), (''z'', ''nowhere'')],
                        node_fallback = None\<rparr>)], adj = []\<rparr>
        ''B''
        \<lparr>payload = [(''q'', JNum 7), (''A'', JNum 0)], results = [(''A'', JNum 1)],
         errors = [], calls = [], clock = 0\<rparr>)) = [] @ c # rest \<and>
     c_node c = ''B'' \<and> \<not> c_fallback c \<and> c_url c = JStr ''http://b'' \<and>
     map fst (c_body c) = [''x'', ''y'', ''z''] \<and>
     map_of (c_body c) ''z'' = Some JNull"
  using resolved_inputs_sent [of
      "\<lparr>node_attr = [(''B'', Some \<lparr>name = ''B'', endpoint = ''http://b'',
                        inputs = [(''x'', ''A''), (''y'', ''q''), (''z'', ''nowhere'')],
                        node_fallback = None\<rparr>)], adj = []\<rparr>"
      "''B''"
      "\<lparr>name = ''B'', endpoint = ''http://b'',
        inputs = [(''x'', ''A''), (''y'', ''q''), (''z'', ''nowhere'')], node_fallback = None\<rparr>"
      "''z''" "''nowhere''" "\<lambda>t u b. Inr (JObj b)"
      "\<lparr>payload = [(''q'', JNum 7), (''A'', JNum 0)], results = [(''A'', JNum 1)],
        errors = [], calls = [], clock = 0\<rparr>"]
  by simp

text \<open>
  C8. Against deterministic services (the answer is a function of the URL and the body
  alone), two runs of \<open>execute\<close> on the same graph and payload, whenever they start, end
  the same way, with the same \<open>results\<close> and \<open>errors\<close> and the same requests.
\<close>

theorem execute_deterministic:
  "fst (execute (\<lambda>_. f) t1 g pl) = fst (execute (\<lambda>_. f) t2 g pl) \<and>
   results (snd (execute (\<lambda>_. f) t1 g pl)) = results (snd (execute (\<lambda>_. f) t2 g pl)) \<and>
   errors (snd (execute (\<lambda>_. f) t1 g pl)) = errors (snd (execute (\<lambda>_. f) t2 g pl)) \<and>
   calls (snd (execute (\<lambda>_. f) t1 g pl)) = calls (snd (execute (\<lambda>_. f) t2 g pl))"
proof -
  obtain x s where a: "execute (\<lambda>_. f) t1 g pl = (x, s)" by (cases "execute (\<lambda>_. f) t1 g pl")
  obtain y u where b: "execute (\<lambda>_. f) t2 g pl = (y, u)" by (cases "execute (\<lambda>_. f) t2 g pl")
  have "apsnd unclock (execute (\<lambda>_. f) t1 g pl) = apsnd unclock (execute (\<lambda>_. f) t2 g pl)"
    by (simp add: execute_unclock [of f t1] execute_unclock [of f t2])
  with a b have "x = y" and eq: "unclock s = unclock u" by simp_all
  from eq have "results s = results u" "errors s = errors u" "calls s = calls u"
    unfolding unclock_def by (metis state.select_convs state.update_convs state.surjective)+
  with a b \<open>x = y\<close> show ?thesis by simp
qed

text \<open>
  C9. \<open>execute\<close> never changes the initial payload: the payload after the run, returned or
  raised, is the payload passed in, whatever the services answer.
\<close>

theorem execute_payload_unchanged: "payload (snd (execute post t0 g pl)) = pl"
proof -
  obtain order ending where ts: "topological_sort (build g) = (order, ending)"
    by (cases "topological_sort (build g)")
  obtain x s where r: "run_nodes post (build g) order (init_state t0 pl) = (x, s)"
    by (cases "run_nodes post (build g) order (init_state t0 pl)")
  from run_nodes_payload [OF r] have "payload s = pl" by (simp add: init_state_def)
  with ts r show ?thesis by (cases x) (simp_all add: execute_def)
qed

text \<open>
  C10. When \<open>execute\<close> returns normally, every node of the graph is a key of \<open>results\<close> or of
  \<open>errors\<close>, and the keys of \<open>errors\<close> are exactly the nodes whose primary request failed.
\<close>

theorem report_covers_all_nodes:
  assumes "execute post t0 g pl = (None, s)"
  shows "(\<forall>nd\<in>set (nodes g). name nd \<in> set (keys (results s)) \<union> set (keys (errors s))) \<and>
         (\<forall>n. n \<in> set (keys (errors s)) \<longleftrightarrow>
              (\<exists>c\<in>set (calls s). c_node c = n \<and> \<not> c_fallback c \<and> isl (c_resp c)))"
proof -
  from assms obtain order ending y where
    ts: "topological_sort (build g) = (order, ending)"
    and r: "run_nodes post (build g) order (init_state t0 pl) = (y, s)"
    and x: "None = (case y of None \<Rightarrow> ending | Some e \<Rightarrow> Some e)"
    by (rule execute_run)
  from x have y: "y = None" and e: "ending = None" by (auto split: option.splits)
  from topological_sort_correct(3) [OF build_wf ts e] build_nodes [of g]
  have "name ` set (nodes g) \<subseteq> set order" by blast
  moreover from run_nodes_all_done [OF r [unfolded y]] have "set order \<subseteq> done_nodes s" by simp
  ultimately have a: "\<forall>nd\<in>set (nodes g). name nd \<in> set (keys (results s)) \<union> set (keys (errors s))"
    by (auto simp: done_nodes_def)
  from run_nodes_errs_ok [OF init_good(2) r] have "errs_ok s" .
  then have "\<forall>n. n \<in> set (keys (errors s)) \<longleftrightarrow>
              (\<exists>c\<in>set (calls s). c_node c = n \<and> \<not> c_fallback c \<and> isl (c_resp c))"
    unfolding errs_ok_def failed_primaries_def by auto
  with a show ?thesis by blast
qed

theorem report_covers_all_nodes_witness:
  "fst (execute (ex_post True) 0 ex_graph []) = None \<and>
   ''A'' \<in> set (keys (results (snd (execute (ex_post True) 0 ex_graph [])))) \<union>
           set (keys (errors (snd (execute (ex_post True) 0 ex_graph [])))) \<and>
   ''fallback'' \<in> set (keys (results (snd (execute (ex_post True) 0 ex_graph [])))) \<union>
                  set (keys (errors (snd (execute (ex_post True) 0 ex_graph [])))) \<and>
   (''fallback'' \<in> set (keys (errors (snd (execute (ex_post True) 0 ex_graph []))))) =
     (\<exists>c\<in>set (calls (snd (execute (ex_post True) 0 ex_graph []))).
        c_node c = ''fallback'' \<and> \<not> c_fallback c \<and> isl (c_resp c)) \<and>
   (''A'' \<in> set (keys (errors (snd (execute (ex_post True) 0 ex_graph []))))) =
     (\<exists>c\<in>set (calls (snd (execute (ex_post True) 0 ex_graph []))).
        c_node c = ''A'' \<and> \<not> c_fallback c \<and> isl (c_resp c))"
proof -
  let ?s = "snd (execute (ex_post True) 0 ex_graph [])"
  have run: "execute (ex_post True) 0 ex_graph [] = (None, ?s)"
    by (simp add: ex_recovered_run)
  note t = report_covers_all_nodes [OF run]
  from t have a: "\<forall>nd\<in>set (nodes ex_graph). name nd \<in> set (keys (results ?s)) \<union> set (keys (errors ?s))"
    by (rule conjunct1)
  from t have b: "\<forall>n. n \<in> set (keys (errors ?s)) \<longleftrightarrow>
      (\<exists>c\<in>set (calls ?s). c_node c = n \<and> \<not> c_fallback c \<and> isl (c_resp c))"
    by (rule conjunct2)
  have n0: "nodes ex_graph ! 0 \<in> set (nodes ex_graph)" "name (nodes ex_graph ! 0) = ''A''"
    and n1: "nodes ex_graph ! 1 \<in> set (nodes ex_graph)" "name (nodes ex_graph ! 1) = ''fallback''"
    by (simp_all add: ex_graph_def ex_nodes_def)
  from bspec [OF a n0(1)] have c0: "''A'' \<in> set (keys (results ?s)) \<union> set (keys (errors ?s))"
    unfolding n0(2) .
  from bspec [OF a n1(1)] have c1: "''fallback'' \<in> set (keys (results ?s)) \<union> set (keys (errors ?s))"
    unfolding n1(2) .
  have f: "fst (execute (ex_post True) 0 ex_graph []) = None" by (simp add: ex_recovered_run)
  from f c0 c1 spec [OF b, of "''fallback''"] spec [OF b, of "''A''"] show ?thesis
    by blast
qed

end
